theory Spec2Isabelle
  imports Complex_Main "HOL-Library.Sublist" "HOL-Library.AList"
begin

section \<open>Text and character classes\<close>

text \<open>
  The extractor works on the decoded text of one \<^verbatim>\<open>.ll\<close> file. A text is a
  \<^typ>\<open>string\<close>; a character stands for the code point of the same number, so the
  development covers texts whose code points are below 256. The classes below are the
  ones Python's \<^verbatim>\<open>re\<close> module and \<^verbatim>\<open>str.strip\<close> use on \<^verbatim>\<open>str\<close> values, restricted to that
  range: \<^verbatim>\<open>\s\<close> and \<^verbatim>\<open>strip\<close> share one whitespace set, \<^verbatim>\<open>\d\<close> is the decimal digits, and
  \<^verbatim>\<open>\w\<close> is the alphanumeric characters and the underscore.
\<close>

definition is_space :: "char \<Rightarrow> bool" where
  "is_space c =
     (let n = (of_char c :: nat)
      in (9 \<le> n \<and> n \<le> 13) \<or> (28 \<le> n \<and> n \<le> 32) \<or> n = 133 \<or> n = 160)"

definition is_digit :: "char \<Rightarrow> bool" where
  "is_digit c = (let n = (of_char c :: nat) in 48 \<le> n \<and> n \<le> 57)"

definition is_alnum :: "char \<Rightarrow> bool" where
  "is_alnum c =
     (let n = (of_char c :: nat)
      in (48 \<le> n \<and> n \<le> 57) \<or> (65 \<le> n \<and> n \<le> 90) \<or> (97 \<le> n \<and> n \<le> 122)
         \<or> n = 170 \<or> n = 178 \<or> n = 179 \<or> n = 181 \<or> n = 185 \<or> n = 186
         \<or> (188 \<le> n \<and> n \<le> 190) \<or> (192 \<le> n \<and> n \<le> 214)
         \<or> (216 \<le> n \<and> n \<le> 246) \<or> (248 \<le> n \<and> n \<le> 255))"

definition is_word :: "char \<Rightarrow> bool" where
  "is_word c = (is_alnum c \<or> c = CHR ''_'')"

text \<open>\<^verbatim>\<open>str.strip()\<close>: whitespace removed at both ends.\<close>

definition strip :: "string \<Rightarrow> string" where
  "strip s = rev (dropWhile is_space (rev (dropWhile is_space s)))"

text \<open>\<^verbatim>\<open>s.find(sub)\<close>: the lowest index where \<^verbatim>\<open>sub\<close> starts; Python's \<^verbatim>\<open>-1\<close> is \<open>None\<close>.\<close>

fun str_find :: "string \<Rightarrow> string \<Rightarrow> nat option" where
  "str_find sub [] = (if sub = [] then Some 0 else None)"
| "str_find sub (x # xs) =
     (if take (length sub) (x # xs) = sub then Some 0
      else map_option Suc (str_find sub xs))"

section \<open>Regular expressions with Python's backtracking order\<close>

text \<open>
  Every pattern of the program is written as a value of \<open>re\<close>. Repetition is only ever
  applied to a single character class in the program, so \<open>Star\<close>, \<open>StarLazy\<close> and
  \<open>Plus\<close> take a class. \<open>Dot\<close> is \<^verbatim>\<open>.\<close> without the DOTALL flag (anything but a newline),
  \<open>DotAll\<close> is \<^verbatim>\<open>.\<close> under DOTALL.
\<close>

datatype atom = C char | S | W | D

datatype cclass = A atom | Dot | DotAll | OneOf "atom list" | NoneOf "atom list"

datatype re =
    Eps
  | One cclass
  | Str string
  | Star cclass
  | StarLazy cclass
  | Seq re re
  | Alt re re
  | Grp re
  | Ahead re
  | EndZ
  | WordB

fun in_atom :: "atom \<Rightarrow> char \<Rightarrow> bool" where
  "in_atom (C a) c = (c = a)"
| "in_atom S c = is_space c"
| "in_atom W c = is_word c"
| "in_atom D c = is_digit c"

fun in_class :: "cclass \<Rightarrow> char \<Rightarrow> bool" where
  "in_class (A a) c = in_atom a c"
| "in_class Dot c = (c \<noteq> CHR 0x0A)"
| "in_class DotAll c = True"
| "in_class (OneOf as) c = list_ex (\<lambda>a. in_atom a c) as"
| "in_class (NoneOf as) c = (\<not> list_ex (\<lambda>a. in_atom a c) as)"

definition Plus :: "cclass \<Rightarrow> re" where
  "Plus c = Seq (One c) (Star c)"

definition seqs :: "re list \<Rightarrow> re" where
  "seqs rs = foldr Seq rs Eps"

text \<open>
  A cursor is a place in the text: the character just before it (none at the start of the
  text) and the text from it on. Matching a pattern at a cursor yields every way the
  pattern can match there, each as the cursor where the match ends and the text of group 1
  when the group took part, in the order in which a backtracking matcher tries them:
  a greedy repetition longest first, a lazy one shortest first, the left alternative before
  the right. Python reports the first.
\<close>

type_synonym cursor = "char option \<times> string"

type_synonym hit = "cursor \<times> string option"

fun consumed :: "cursor \<Rightarrow> cursor \<Rightarrow> string" where
  "consumed (p, s) (p', s') = take (length s - length s') s"

fun eat :: "string \<Rightarrow> cursor \<Rightarrow> cursor option" where
  "eat [] z = Some z"
| "eat (c # cs) (p, []) = None"
| "eat (c # cs) (p, x # xs) = (if x = c then eat cs (Some x, xs) else None)"

fun steps :: "cclass \<Rightarrow> cursor \<Rightarrow> cursor list" where
  "steps c (p, []) = [(p, [])]"
| "steps c (p, x # xs) =
     (p, x # xs) # (if in_class c x then steps c (Some x, xs) else [])"

fun at_boundary :: "cursor \<Rightarrow> bool" where
  "at_boundary (p, s) =
     ((case p of None \<Rightarrow> False | Some a \<Rightarrow> is_word a)
      \<noteq> (case s of [] \<Rightarrow> False | x # _ \<Rightarrow> is_word x))"

fun keep_group :: "string option \<Rightarrow> hit \<Rightarrow> hit" where
  "keep_group g (z, None) = (z, g)"
| "keep_group g (z, Some w) = (z, Some w)"

fun m :: "re \<Rightarrow> cursor \<Rightarrow> hit list" where
  "m Eps z = [(z, None)]"
| "m (One c) z =
     (case snd z of [] \<Rightarrow> []
      | x # xs \<Rightarrow> if in_class c x then [((Some x, xs), None)] else [])"
| "m (Str w) z = (case eat w z of None \<Rightarrow> [] | Some z' \<Rightarrow> [(z', None)])"
| "m (Star c) z = map (\<lambda>z'. (z', None)) (rev (steps c z))"
| "m (StarLazy c) z = map (\<lambda>z'. (z', None)) (steps c z)"
| "m (Seq a b) z = concat (map (\<lambda>h. map (keep_group (snd h)) (m b (fst h))) (m a z))"
| "m (Alt a b) z = m a z @ m b z"
| "m (Grp a) z = map (\<lambda>h. (fst h, Some (consumed z (fst h)))) (m a z)"
| "m (Ahead a) z = (if m a z = [] then [] else [(z, None)])"
| "m EndZ z = (if snd z = [] then [(z, None)] else [])"
| "m WordB z = (if at_boundary z then [(z, None)] else [])"

text \<open>
  A match object: where the match starts, where it ends, and group 1.
  \<open>group0\<close> is \<^verbatim>\<open>m.group(0)\<close>; \<open>group1\<close> is \<^verbatim>\<open>m.group(1)\<close>, with the empty text
  that \<^verbatim>\<open>findall\<close> reports for a group that took no part.
\<close>

type_synonym rmatch = "cursor \<times> cursor \<times> string option"

fun group0 :: "rmatch \<Rightarrow> string" where
  "group0 (zs, ze, g) = consumed zs ze"

fun group1 :: "rmatch \<Rightarrow> string" where
  "group1 (zs, ze, g) = (case g of None \<Rightarrow> [] | Some w \<Rightarrow> w)"

text \<open>
  The scan of \<^verbatim>\<open>re.search\<close> and of each round of \<^verbatim>\<open>finditer\<close>, \<^verbatim>\<open>findall\<close> and
  \<^verbatim>\<open>split\<close>: the leftmost cursor at which the pattern matches, and the matcher's first way
  of matching there. With \<open>adv\<close> set (the round after an empty match) an empty match at the
  very first cursor is not accepted.
\<close>

fun scan :: "re \<Rightarrow> bool \<Rightarrow> cursor \<Rightarrow> rmatch option" where
  "scan r adv (p, s) =
     (case filter (\<lambda>h. \<not> adv \<or> length (snd (fst h)) < length s) (m r (p, s)) of
        h # _ \<Rightarrow> Some ((p, s), fst h, snd h)
      | [] \<Rightarrow> (case s of [] \<Rightarrow> None | x # xs \<Rightarrow> scan r False (Some x, xs)))"

declare scan.simps [simp del]

definition re_search :: "re \<Rightarrow> string \<Rightarrow> rmatch option" where
  "re_search r text = scan r False (None, text)"

text \<open>Every way of matching ends at or after the cursor it started from.\<close>

lemma eat_suffix: "eat w z = Some z' \<Longrightarrow> suffix (snd z') (snd z)"
proof (induction w z rule: eat.induct)
  case (3 c cs p x xs)
  then show ?case by (auto split: if_splits intro: suffix_ConsI)
qed auto

lemma steps_suffix: "z' \<in> set (steps c z) \<Longrightarrow> suffix (snd z') (snd z)"
proof (induction c z rule: steps.induct)
  case (2 c p x xs)
  then show ?case by (auto split: if_splits intro: suffix_ConsI)
qed auto

lemma keep_group_fst: "fst (keep_group g h) = fst h"
  by (cases h; cases "snd h") auto

lemma m_suffix: "h \<in> set (m r z) \<Longrightarrow> suffix (snd (fst h)) (snd z)"
proof (induction r arbitrary: z h)
  case (One c)
  then show ?case by (cases z) (auto split: list.splits if_splits intro: suffix_ConsI)
next
  case (Str w)
  from Str obtain z' where "eat w z = Some z'" and "fst h = z'"
    by (cases "eat w z") auto
  then show ?case using eat_suffix by blast
next
  case (Star c)
  then show ?case by (auto dest: steps_suffix)
next
  case (StarLazy c)
  then show ?case by (auto dest: steps_suffix)
next
  case (Seq a b)
  from Seq.prems obtain h1 h2 where h1: "h1 \<in> set (m a z)" and h2: "h2 \<in> set (m b (fst h1))"
    and h: "h = keep_group (snd h1) h2" by auto
  from Seq.IH(1)[OF h1] Seq.IH(2)[OF h2] have "suffix (snd (fst h2)) (snd z)"
    by (rule suffix_order.trans[rotated])
  then show ?case by (simp add: h keep_group_fst)
next
  case (Grp a)
  from Grp.prems obtain h1 where "h1 \<in> set (m a z)" and "fst h = fst h1" by auto
  with Grp.IH show ?case by simp
next
  case (Ahead a)
  from Ahead.prems have "fst h = z" by (auto split: if_splits)
  then show ?case by simp
qed (auto split: if_splits)

lemma scan_suffix:
  "scan r adv z = Some (zs, ze, g) \<Longrightarrow>
     suffix (snd zs) (snd z) \<and> suffix (snd ze) (snd zs) \<and> (adv \<longrightarrow> length (snd ze) < length (snd z))"
proof (induction r adv z rule: scan.induct)
  case (1 r adv p s)
  show ?case
  proof (cases "filter (\<lambda>h. \<not> adv \<or> length (snd (fst h)) < length s) (m r (p, s))")
    case Nil
    with "1.prems" obtain x xs where s: "s = x # xs" and sc: "scan r False (Some x, xs) = Some (zs, ze, g)"
      by (auto simp: scan.simps[of r adv p s] split: list.splits)
    from "1.IH"[OF Nil s sc] have a: "suffix (snd zs) xs" and b: "suffix (snd ze) (snd zs)" by auto
    from a b have "length (snd ze) \<le> length xs"
      using suffix_length_le by (metis order_trans)
    with a b s show ?thesis by (auto intro: suffix_ConsI)
  next
    case (Cons h hs)
    with "1.prems" have eq: "zs = (p, s)" "ze = fst h" "g = snd h"
      by (auto simp: scan.simps[of r adv p s])
    from Cons have "h \<in> set (filter (\<lambda>h. \<not> adv \<or> length (snd (fst h)) < length s) (m r (p, s)))" by simp
    then have hm: "h \<in> set (m r (p, s))" and adv: "\<not> adv \<or> length (snd (fst h)) < length s" by auto
    from m_suffix[OF hm] adv eq show ?thesis by auto
  qed
qed

text \<open>
  The rounds of \<^verbatim>\<open>finditer\<close>: each starts where the last match ended, and the round after
  an empty match must advance. \<^verbatim>\<open>findall\<close> and \<^verbatim>\<open>split\<close> run the same rounds.
\<close>

function finditer :: "re \<Rightarrow> bool \<Rightarrow> cursor \<Rightarrow> rmatch list" where
  "finditer r adv z =
     (case scan r adv z of
        None \<Rightarrow> []
      | Some (zs, ze, g) \<Rightarrow>
          (zs, ze, g) # finditer r (length (snd ze) = length (snd zs)) ze)"
  by pat_completeness auto
termination
proof (relation "measure (\<lambda>(r, adv, z). 2 * length (snd z) + (if adv then 0 else 1))", goal_cases)
  case 1
  show ?case by simp
next
  case (2 r adv z x2 zs x2a ze g)
  then have "scan r adv z = Some (zs, ze, g)" by simp
  from scan_suffix[OF this] have a: "length (snd zs) \<le> length (snd z)"
    and b: "length (snd ze) \<le> length (snd zs)" and c: "adv \<longrightarrow> length (snd ze) < length (snd z)"
    by (auto dest: suffix_length_le)
  then show ?case by auto
qed

declare finditer.simps [simp del]

definition re_finditer :: "re \<Rightarrow> string \<Rightarrow> rmatch list" where
  "re_finditer r text = finditer r False (None, text)"

definition re_findall0 :: "re \<Rightarrow> string \<Rightarrow> string list" where
  "re_findall0 r text = map group0 (re_finditer r text)"

definition re_findall1 :: "re \<Rightarrow> string \<Rightarrow> string list" where
  "re_findall1 r text = map group1 (re_finditer r text)"

text \<open>\<^verbatim>\<open>re.split\<close> for a pattern without groups: the texts between the matches.\<close>

fun pieces :: "rmatch list \<Rightarrow> cursor \<Rightarrow> string list" where
  "pieces [] z = [snd z]"
| "pieces ((zs, ze, g) # ms) z = consumed z zs # pieces ms ze"

definition re_split :: "re \<Rightarrow> string \<Rightarrow> string list" where
  "re_split r text = pieces (re_finditer r text) (None, text)"

section \<open>Values of a feature row\<close>

text \<open>
  A row is a Python dict from feature names to values, kept as an association list in
  insertion order. A value is a text, an \<^verbatim>\<open>int\<close> or a \<^verbatim>\<open>float\<close>. The only floats of the
  program are quotients \<^verbatim>\<open>a / b\<close> of two counts; such a quotient is kept as the exact
  rational, which has the sign and the zeroness of the rounded float.
\<close>

datatype pyval = PStr string | PInt int | PFloat rat

type_synonym row = "(string \<times> pyval) list"

definition true_div :: "nat \<Rightarrow> nat \<Rightarrow> pyval" where
  "true_div a b = PFloat (of_nat a / of_nat b)"

text \<open>\<^verbatim>\<open>d.update(other)\<close>.\<close>

definition dict_update :: "row \<Rightarrow> row \<Rightarrow> row" where
  "dict_update d other = foldl (\<lambda>d kv. AList.update (fst kv) (snd kv) d) d other"

text \<open>\<^verbatim>\<open>len(re.findall(pattern, text))\<close>.\<close>

definition count_matches :: "re \<Rightarrow> string \<Rightarrow> nat" where
  "count_matches r text = length (re_findall0 r text)"

section \<open>Function splitter\<close>

text \<open>\<^verbatim>\<open>_get_function_name\<close>: \<^verbatim>\<open>re.search(r'@([\w.]+)', function_text)\<close>.\<close>

definition name_pattern :: re where
  "name_pattern = seqs [Str ''@'', Grp (Plus (OneOf [W, C CHR ''.'']))]"

definition get_function_name :: "string \<Rightarrow> string" where
  "get_function_name function_text =
     (case re_search name_pattern function_text of
        Some mt \<Rightarrow> group1 mt
      | None \<Rightarrow> ''unknown'')"

text \<open>
  \<^verbatim>\<open>_split_into_functions\<close>: the pattern
  \<^verbatim>\<open>define.*{.*?}(?=\n\s*(?:define|\Z))\<close> under DOTALL, and the dict comprehension over its
  matches; a later region of the same name replaces the text of the earlier one.
\<close>

definition function_pattern :: re where
  "function_pattern =
     seqs [Str ''define'', Star DotAll, Str ''{'', StarLazy DotAll, Str ''}'',
           Ahead (seqs [Str ''\<newline>'', Star (A S), Alt (Str ''define'') EndZ])]"

definition split_into_functions :: "string \<Rightarrow> (string \<times> string) list" where
  "split_into_functions ir_content =
     foldl (\<lambda>d f. AList.update (get_function_name (group0 f)) (group0 f) d) []
       (re_finditer function_pattern ir_content)"

section \<open>Basic blocks and per-block features\<close>

text \<open>\<^verbatim>\<open>_get_basic_blocks\<close>: \<^verbatim>\<open>re.split(r'\n\s*[\w.]+:', function_text)[1:]\<close>, stripped, empty ones left out.\<close>

definition label_pattern :: re where
  "label_pattern =
     seqs [Str ''\<newline>'', Star (A S), Plus (OneOf [W, C CHR ''.'']), Str '':'']"

definition get_basic_blocks :: "string \<Rightarrow> string list" where
  "get_basic_blocks function_text =
     (let blocks = tl (re_split label_pattern function_text)
      in map strip (filter (\<lambda>block. strip block \<noteq> []) blocks))"

text \<open>\<^verbatim>\<open>\n\s+[^;}]\<close>, \<^verbatim>\<open>br\s+(?:label|i1)\<close>, \<^verbatim>\<open>br\s+i1\<close> and \<^verbatim>\<open>\bcall\b\<close>.\<close>

definition instr_pattern :: re where
  "instr_pattern = seqs [Str ''\<newline>'', Plus (A S), One (NoneOf [C CHR '';'', C CHR ''}''])]"

definition succ_pattern :: re where
  "succ_pattern = seqs [Str ''br'', Plus (A S), Alt (Str ''label'') (Str ''i1'')]"

definition cond_br_pattern :: re where
  "cond_br_pattern = seqs [Str ''br'', Plus (A S), Str ''i1'']"

definition call_word_pattern :: re where
  "call_word_pattern = seqs [WordB, Str ''call'', WordB]"

definition get_instruction_per_block :: "string \<Rightarrow> pyval" where
  "get_instruction_per_block function_text =
     (let blocks = get_basic_blocks function_text
      in if blocks = [] then PInt 0
         else true_div (sum_list (map (count_matches instr_pattern) blocks)) (length blocks))"

definition get_successor_per_block :: "string \<Rightarrow> pyval" where
  "get_successor_per_block function_text =
     (let blocks = get_basic_blocks function_text
      in if blocks = [] then PInt 0
         else true_div (sum_list (map (count_matches succ_pattern) blocks)) (length blocks))"

section \<open>Loop regions\<close>

text \<open>
  \<^verbatim>\<open>_get_loop_body\<close>. The body of its \<^verbatim>\<open>try\<close> is \<open>get_loop_body_try\<close>, where \<open>None\<close> stands
  for a raised exception (the only operation that can raise is the index read
  \<^verbatim>\<open>function_text[end_idx]\<close>); the \<^verbatim>\<open>except\<close> clause turns it into the empty text.
  \<open>brace_scan\<close> is the \<^verbatim>\<open>while\<close> loop, returning the final \<^verbatim>\<open>end_idx\<close>.
\<close>

definition char_at :: "string \<Rightarrow> nat \<Rightarrow> char option" where
  "char_at s i = (if i < length s then Some (s ! i) else None)"

function brace_scan :: "string \<Rightarrow> nat \<Rightarrow> nat \<Rightarrow> nat option" where
  "brace_scan function_text brace_count end_idx =
     (if brace_count > 0 \<and> int end_idx < int (length function_text) - 1 then
        (case char_at function_text (end_idx + 1) of
           None \<Rightarrow> None
         | Some c \<Rightarrow>
             brace_scan function_text
               (if c = CHR ''{'' then brace_count + 1
                else if c = CHR ''}'' then brace_count - 1
                else brace_count)
               (end_idx + 1))
      else Some end_idx)"
  by pat_completeness auto
termination
  by (relation "measure (\<lambda>(t, b, e). length t - e)") auto

declare brace_scan.simps [simp del]

definition get_loop_body_try :: "string \<Rightarrow> string \<Rightarrow> string option" where
  "get_loop_body_try loop_header function_text =
     (case str_find loop_header function_text of
        None \<Rightarrow> Some []
      | Some start_idx \<Rightarrow>
          (case brace_scan function_text 1 start_idx of
             None \<Rightarrow> None
           | Some end_idx \<Rightarrow> Some (drop start_idx (take (end_idx + 1) function_text))))"

definition get_loop_body :: "string \<Rightarrow> string \<Rightarrow> string" where
  "get_loop_body loop_header function_text =
     (case get_loop_body_try loop_header function_text of None \<Rightarrow> [] | Some body \<Rightarrow> body)"

text \<open>\<^verbatim>\<open>get_loop_features\<close>; the anchors are the matches of \<^verbatim>\<open>loop:.*\n\<close>.\<close>

definition loop_header_pattern :: re where
  "loop_header_pattern = seqs [Str ''loop:'', Star Dot, Str ''\<newline>'']"

definition max_or_zero :: "nat list \<Rightarrow> nat" where
  "max_or_zero xs = (case xs of [] \<Rightarrow> 0 | x # ys \<Rightarrow> fold max ys x)"

definition get_loop_features :: "string \<Rightarrow> row" where
  "get_loop_features function_text =
     (let loop_headers = re_findall0 loop_header_pattern function_text
      in if loop_headers = [] then
           [(''avg_nested_loop_level'', PInt 0),
            (''instr_per_loop'', PInt 0),
            (''block_with_multiple_succ_per_loop'', PInt 0),
            (''max_loop_depth'', PInt 0),
            (''num_callsite_in_loop'', PInt 0)]
         else
           (let loop_depths = map (count_matches (Str ''loop:'')) loop_headers;
                loop_bodies = map (\<lambda>loop. get_loop_body loop function_text) loop_headers;
                total_instructions = sum_list (map (count_matches instr_pattern) loop_bodies);
                multiple_succ_blocks = sum_list (map (count_matches cond_br_pattern) loop_bodies);
                callsites_in_loop = sum_list (map (count_matches call_word_pattern) loop_bodies)
            in [(''avg_nested_loop_level'',
                   if loop_depths = [] then PInt 0
                   else true_div (sum_list loop_depths) (length loop_depths)),
                (''instr_per_loop'', true_div total_instructions (length loop_headers)),
                (''block_with_multiple_succ_per_loop'',
                   true_div multiple_succ_blocks (length loop_headers)),
                (''max_loop_depth'', PInt (int (max_or_zero loop_depths))),
                (''num_callsite_in_loop'', PInt (int callsites_in_loop))]))"

section \<open>Call graph\<close>

text \<open>
  \<^verbatim>\<open>_find_caller\<close> searches \<^verbatim>\<open>call.*@\<close> followed by the function name (spliced into the pattern by an f-string) in the function texts, in the order
  of the mapping. The spliced name is a result of \<open>get_function_name\<close>, so it consists of
  word characters and dots: a dot of the name is the pattern \<^verbatim>\<open>.\<close>, every other character
  stands for itself.
\<close>

definition name_re :: "string \<Rightarrow> re" where
  "name_re function_name =
     seqs (map (\<lambda>c. if c = CHR ''.'' then One Dot else Str [c]) function_name)"

definition caller_pattern :: "string \<Rightarrow> re" where
  "caller_pattern function_name = seqs [Str ''call'', Star Dot, Str ''@'', name_re function_name]"

definition calls_name :: "string \<Rightarrow> string \<Rightarrow> bool" where
  "calls_name function_name func = (re_search (caller_pattern function_name) func \<noteq> None)"

definition find_caller :: "(string \<times> string) list \<Rightarrow> string \<Rightarrow> string option" where
  "find_caller functions function_text =
     (let function_name = get_function_name function_text
      in List.find (calls_name function_name) (map snd functions))"

text \<open>
  \<^verbatim>\<open>_calculate_caller_height\<close>: the \<^verbatim>\<open>while True\<close> loop, with its state \<^verbatim>\<open>height\<close>,
  \<^verbatim>\<open>current_func\<close> and \<^verbatim>\<open>visited\<close>. The result \<open>None\<close> is a loop that never returns.
  \<^verbatim>\<open>not caller\<close> holds for \<^verbatim>\<open>None\<close> and for the empty text.
\<close>

partial_function (option) caller_walk ::
  "(string \<times> string) list \<Rightarrow> nat \<Rightarrow> string \<Rightarrow> string set \<Rightarrow> nat option" where
  "caller_walk functions height current_func visited =
     (case find_caller functions current_func of
        None \<Rightarrow> Some height
      | Some caller \<Rightarrow>
          if caller = [] \<or> get_function_name caller \<in> visited then Some height
          else caller_walk functions (height + 1) caller
                 (insert (get_function_name current_func) visited))"

declare caller_walk.simps [code]

definition calculate_caller_height :: "(string \<times> string) list \<Rightarrow> string \<Rightarrow> nat option" where
  "calculate_caller_height functions function_text = caller_walk functions 0 function_text {}"

text \<open>
  \<^verbatim>\<open>int(s)\<close>, which the program applies to the text of a group \<^verbatim>\<open>\d+\<close> only. \<open>None\<close> is
  a \<^verbatim>\<open>ValueError\<close>: the interpreter refuses a text of more than
  \<^verbatim>\<open>sys.get_int_max_str_digits()\<close> digits (4300 unless reconfigured). A text that is not
  made of decimal digits is reported as \<^verbatim>\<open>ValueError\<close> too; Python would accept a sign,
  blanks and underscores there, which a group \<^verbatim>\<open>\d+\<close> never holds.
\<close>

definition int_max_str_digits :: nat where
  "int_max_str_digits = 4300"

definition py_int :: "string \<Rightarrow> int option" where
  "py_int s =
     (if s = [] \<or> \<not> list_all is_digit s then None
      else if length s > int_max_str_digits then None
      else Some (int (foldl (\<lambda>n c. 10 * n + (of_char c - 48)) 0 s)))"

text \<open>
  The profiling patterns \<^verbatim>\<open>!prof ![\d]+.*![\d]+\<close>, \<^verbatim>\<open>count:(\d+)\<close> and
  \<^verbatim>\<open>!prof ![\d]+.*count:(\d+)\<close>, and the call pattern \<^verbatim>\<open>call\s+.*@([\w.]+)\<close>.
\<close>

definition prof_entry_pattern :: re where
  "prof_entry_pattern =
     seqs [Str ''!prof !'', Plus (OneOf [D]), Star Dot, Str ''!'', Plus (OneOf [D])]"

definition count_pattern :: re where
  "count_pattern = seqs [Str ''count:'', Grp (Plus (A D))]"

definition prof_block_pattern :: re where
  "prof_block_pattern =
     seqs [Str ''!prof !'', Plus (OneOf [D]), Star Dot, Str ''count:'', Grp (Plus (A D))]"

definition call_pattern :: re where
  "call_pattern =
     seqs [Str ''call'', Plus (A S), Star Dot, Str ''@'', Grp (Plus (OneOf [W, C CHR ''.'']))]"

definition entry_freq_of :: "string \<Rightarrow> int option" where
  "entry_freq_of function_text =
     (case re_search prof_entry_pattern function_text of
        None \<Rightarrow> Some 0
      | Some entry_block_match \<Rightarrow>
          (case re_search count_pattern (group0 entry_block_match) of
             None \<Rightarrow> Some 0
           | Some freq_match \<Rightarrow> py_int (group1 freq_match)))"

fun block_freqs_of :: "string list \<Rightarrow> int list option" where
  "block_freqs_of [] = Some []"
| "block_freqs_of (block # rest) =
     (case re_search prof_block_pattern block of
        None \<Rightarrow> block_freqs_of rest
      | Some freq_match \<Rightarrow>
          (case py_int (group1 freq_match) of
             None \<Rightarrow> None
           | Some n \<Rightarrow> map_option ((#) n) (block_freqs_of rest)))"

definition max_freq :: "int list \<Rightarrow> int" where
  "max_freq block_freqs = (case block_freqs of [] \<Rightarrow> 0 | x # ys \<Rightarrow> fold max ys x)"

text \<open>
  \<^verbatim>\<open>get_call_graph_features\<close>. \<open>call_graph_try\<close> is the body of the \<^verbatim>\<open>try\<close>: \<open>Inl\<close> is an
  exception raised in it (only \<^verbatim>\<open>int\<close> can raise), \<open>Inr\<close> the dict it returns, and the outer
  \<open>None\<close> a caller walk that never returns. The \<^verbatim>\<open>except\<close> clause returns the all-zero dict.
\<close>

datatype py_error = ValueError

definition call_graph_try ::
  "(string \<times> string) list \<Rightarrow> string \<Rightarrow> (py_error + row) option" where
  "call_graph_try functions function_text =
     (let calls = re_findall1 call_pattern function_text;
          function_name = get_function_name function_text;
          is_recursive = (function_name \<in> set calls);
          call_usage = length calls
      in case entry_freq_of function_text of
           None \<Rightarrow> Some (Inl ValueError)
         | Some entry_freq \<Rightarrow>
             (case block_freqs_of (get_basic_blocks function_text) of
                None \<Rightarrow> Some (Inl ValueError)
              | Some block_freqs \<Rightarrow>
                  (case calculate_caller_height functions function_text of
                     None \<Rightarrow> None
                   | Some caller_height \<Rightarrow>
                       Some (Inr
                         [(''caller_height'', PInt (int caller_height)),
                          (''call_usage'', PInt (int call_usage)),
                          (''is_recursive'', PInt (if is_recursive then 1 else 0)),
                          (''entry_block_freq'', PInt entry_freq),
                          (''max_callsite_block_freq'', PInt (max_freq block_freqs))]))))"

definition get_call_graph_features :: "(string \<times> string) list \<Rightarrow> string \<Rightarrow> row option" where
  "get_call_graph_features functions function_text =
     (case call_graph_try functions function_text of
        None \<Rightarrow> None
      | Some (Inr features) \<Rightarrow> Some features
      | Some (Inl e) \<Rightarrow>
          Some [(''caller_height'', PInt 0),
                (''call_usage'', PInt 0),
                (''is_recursive'', PInt 0),
                (''entry_block_freq'', PInt 0),
                (''max_callsite_block_freq'', PInt 0)])"

section \<open>Feature rows\<close>

text \<open>
  \<^verbatim>\<open>get_calls_no\<close>, \<^verbatim>\<open>is_local\<close> (\<^verbatim>\<open>'internal' in function_text.split('\n')[0]\<close>, where
  \<open>sublist\<close> is Python's \<^verbatim>\<open>in\<close> on texts) and \<^verbatim>\<open>count_specific_instructions\<close>; the instruction words
  the program passes (\<^verbatim>\<open>ret\<close>, \<^verbatim>\<open>fmul\<close>, \<^verbatim>\<open>fdiv\<close>, \<^verbatim>\<open>fadd\<close>, \<^verbatim>\<open>fsub\<close>) are letters, which stand
  for themselves in the pattern \<^verbatim>\<open>\b{instruction}\b\<close>.
\<close>

definition get_calls_no :: "string \<Rightarrow> nat" where
  "get_calls_no function_text = count_matches call_word_pattern function_text"

definition is_local :: "string \<Rightarrow> int" where
  "is_local function_text =
     (if sublist ''internal'' (takeWhile (\<lambda>c. c \<noteq> CHR 0x0A) function_text) then 1 else 0)"

definition count_specific_instructions :: "string \<Rightarrow> string \<Rightarrow> nat" where
  "count_specific_instructions function_text instruction =
     count_matches (seqs [WordB, Str instruction, WordB]) function_text"

text \<open>
  \<^verbatim>\<open>extract_all_features\<close>: one dict per entry of the function mapping, in its order; the
  data frame is the list of these rows. \<open>feature_row\<close> is the body of the \<^verbatim>\<open>for\<close> loop.
\<close>

definition feature_row :: "(string \<times> string) list \<Rightarrow> string \<Rightarrow> string \<Rightarrow> row option" where
  "feature_row functions func_name func_text =
     (let feature_dict =
            [(''function_name'', PStr func_name),
             (''instruction_per_block'', get_instruction_per_block func_text),
             (''successor_per_block'', get_successor_per_block func_text),
             (''calls_no'', PInt (int (get_calls_no func_text))),
             (''is_local'', PInt (is_local func_text)),
             (''ret_count'', PInt (int (count_specific_instructions func_text ''ret''))),
             (''fmul_count'', PInt (int (count_specific_instructions func_text ''fmul''))),
             (''fdiv_count'', PInt (int (count_specific_instructions func_text ''fdiv''))),
             (''fadd_count'', PInt (int (count_specific_instructions func_text ''fadd''))),
             (''fsub_count'', PInt (int (count_specific_instructions func_text ''fsub'')))];
          loop_features = get_loop_features func_text;
          feature_dict = dict_update feature_dict loop_features
      in case get_call_graph_features functions func_text of
           None \<Rightarrow> None
         | Some call_features \<Rightarrow> Some (dict_update feature_dict call_features))"

fun feature_rows :: "(string \<times> string) list \<Rightarrow> (string \<times> string) list \<Rightarrow> row list option" where
  "feature_rows functions [] = Some []"
| "feature_rows functions ((func_name, func_text) # rest) =
     (case feature_row functions func_name func_text of
        None \<Rightarrow> None
      | Some feature_dict \<Rightarrow> map_option ((#) feature_dict) (feature_rows functions rest))"

definition extract_all_features :: "string \<Rightarrow> row list option" where
  "extract_all_features ir_content =
     (let functions = split_into_functions ir_content
      in feature_rows functions functions)"

section \<open>The caller walk returns\<close>

text \<open>
  The names of the texts in the mapping: every caller the walk reaches carries one of them.
\<close>

definition value_names :: "(string \<times> string) list \<Rightarrow> string set" where
  "value_names functions = get_function_name ` snd ` set functions"

lemma find_caller_name:
  "get_function_name a = get_function_name b \<Longrightarrow> find_caller fs a = find_caller fs b"
  by (simp add: find_caller_def)

lemma find_caller_value: "find_caller fs a = Some c \<Longrightarrow> c \<in> snd ` set fs"
  unfolding find_caller_def Let_def by (auto simp: find_Some_iff)

lemma caller_walk_returns:
  "\<exists>h'. caller_walk fs h cur vis = Some h' \<and>
        h' \<le> h + card (value_names fs - vis)
                 + (if get_function_name cur \<in> value_names fs - vis then 0 else 1)"
proof (induction "card (value_names fs - vis)
                 + (if get_function_name cur \<in> value_names fs - vis then 0 else (1::nat))"
       arbitrary: h cur vis rule: less_induct)
  case less
  let ?V = "value_names fs"
  let ?n = "get_function_name cur"
  have fin: "finite (?V - vis)" for vis by (simp add: value_names_def)
  show ?case
  proof (cases "find_caller fs cur")
    case None
    then show ?thesis by (subst caller_walk.simps) simp
  next
    case (Some caller)
    let ?c = "get_function_name caller"
    show ?thesis
    proof (cases "caller = [] \<or> ?c \<in> vis")
      case True
      with Some show ?thesis by (subst caller_walk.simps) auto
    next
      case False
      then have cnv: "?c \<notin> vis" and cne: "caller \<noteq> []" by auto
      from find_caller_value[OF Some] have cV: "?c \<in> ?V" by (auto simp: value_names_def)
      have step: "caller_walk fs h cur vis = caller_walk fs (h + 1) caller (insert ?n vis)"
        using Some False by (subst caller_walk.simps) auto
      have A': "?V - insert ?n vis = (?V - vis) - {?n}" by auto
      show ?thesis
      proof (cases "?n \<in> ?V - vis")
        case nin: True
        then have cardpos: "card (?V - vis) \<ge> 1"
          using fin[of vis] by (metis One_nat_def Suc_leI card_gt_0_iff empty_iff)
        have card': "card (?V - insert ?n vis) = card (?V - vis) - 1"
          using nin fin[of vis] by (simp add: A')
        show ?thesis
        proof (cases "?c = ?n")
          case True
          have "find_caller fs caller = Some caller"
            using find_caller_name[OF True, of fs] Some by simp
          then have "caller_walk fs (h + 1) caller (insert ?n vis) = Some (h + 1)"
            using True by (subst caller_walk.simps) auto
          with step nin cardpos show ?thesis by auto
        next
          case False
          with cV cnv have cin: "?c \<in> ?V - insert ?n vis" by auto
          have "card (?V - insert ?n vis) + (if ?c \<in> ?V - insert ?n vis then 0 else 1)
                < card (?V - vis) + (if ?n \<in> ?V - vis then 0 else 1)"
            using cin nin card' cardpos by auto
          from less[OF this, of "h + 1"] obtain h' where
            "caller_walk fs (h + 1) caller (insert ?n vis) = Some h'"
            "h' \<le> h + 1 + card (?V - insert ?n vis)" using cin by auto
          with step nin card' cardpos show ?thesis by auto
        qed
      next
        case nin: False
        then have A'': "?V - insert ?n vis = ?V - vis" by auto
        from cV cnv have cin: "?c \<in> ?V - insert ?n vis" unfolding A'' by auto
        have "card (?V - insert ?n vis) + (if ?c \<in> ?V - insert ?n vis then 0 else 1)
                < card (?V - vis) + (if ?n \<in> ?V - vis then 0 else 1)"
          using cin nin A'' by auto
        from less[OF this, of "h + 1"] obtain h' where
          "caller_walk fs (h + 1) caller (insert ?n vis) = Some h'"
          "h' \<le> h + 1 + card (?V - insert ?n vis)" using cin by auto
        with step nin A'' show ?thesis by auto
      qed
    qed
  qed
qed

lemma card_value_names: "card (value_names fs) \<le> length fs"
proof -
  have "card (value_names fs) \<le> card (set fs)"
    unfolding value_names_def by (metis card_image_le List.finite_set image_image)
  also have "\<dots> \<le> length fs" by (rule card_length)
  finally show ?thesis .
qed

lemma caller_height_returns:
  "\<exists>h. calculate_caller_height fs t = Some h \<and> h \<le> length fs + 1 \<and> (t \<in> snd ` set fs \<longrightarrow> h \<le> length fs)"
proof -
  from caller_walk_returns[of fs 0 t "{}"] obtain h where
    h: "caller_walk fs 0 t {} = Some h"
       "h \<le> card (value_names fs) + (if get_function_name t \<in> value_names fs then 0 else 1)"
    by auto
  have "t \<in> snd ` set fs \<Longrightarrow> get_function_name t \<in> value_names fs"
    by (auto simp: value_names_def)
  with h card_value_names[of fs] show ?thesis
    by (auto simp: calculate_caller_height_def split: if_splits)
qed

definition mutual_module :: "(string \<times> string) list" where
  "mutual_module =
     [(''f'', ''define @f() {\<newline> call @g()\<newline>}''),
      (''g'', ''define @g() {\<newline> call @f()\<newline>}'')]"

lemma mutual_eval: "calculate_caller_height mutual_module ''define @f() {\<newline> call @g()\<newline>}'' = Some 1"
  by code_simp

text \<open>
  C2. For every function mapping and every function text, the caller-height walk returns,
  also when the call relation has a cycle of any length or a self-loop; started from a
  function of the mapping it counts at most as many hops as the mapping has functions.
\<close>

theorem caller_height_terminates:
  "\<exists>height. calculate_caller_height functions function_text = Some height
      \<and> (function_text \<in> snd ` set functions \<longrightarrow> height \<le> length functions)"
  using caller_height_returns[of "functions" "function_text"] by blast

theorem caller_height_terminates_witness:
  "''define @f() {\<newline> call @g()\<newline>}'' \<in> snd ` set mutual_module
   \<and> calculate_caller_height mutual_module ''define @f() {\<newline> call @g()\<newline>}'' = Some 1
   \<and> (1::nat) \<le> length mutual_module"
  using caller_height_terminates[of mutual_module "''define @f() {\<newline> call @g()\<newline>}''"] mutual_eval
  by (simp add: mutual_module_def)

section \<open>A self-recursive function\<close>










section \<open>Complete rows\<close>

text \<open>
  \<open>feature_keys\<close> are the keys that \<^verbatim>\<open>extract_all_features\<close> writes: those of its three dict
  literals, in the order of insertion. A row is complete when it has exactly these keys,
  a text under \<^verbatim>\<open>function_name\<close> and a number that is not negative under every other key.
\<close>

fun nonneg_number :: "pyval \<Rightarrow> bool" where
  "nonneg_number (PStr s) = False"
| "nonneg_number (PInt i) = (0 \<le> i)"
| "nonneg_number (PFloat q) = (0 \<le> q)"

definition numeric_keys :: "string list" where
  "numeric_keys =
     [''instruction_per_block'', ''successor_per_block'', ''calls_no'', ''is_local'',
      ''ret_count'', ''fmul_count'', ''fdiv_count'', ''fadd_count'', ''fsub_count'',
      ''avg_nested_loop_level'', ''instr_per_loop'', ''block_with_multiple_succ_per_loop'',
      ''max_loop_depth'', ''num_callsite_in_loop'',
      ''caller_height'', ''call_usage'', ''is_recursive'', ''entry_block_freq'',
      ''max_callsite_block_freq'']"

definition feature_keys :: "string list" where
  "feature_keys = ''function_name'' # numeric_keys"

definition has_number :: "row \<Rightarrow> string \<Rightarrow> bool" where
  "has_number r k = (case map_of r k of None \<Rightarrow> False | Some v \<Rightarrow> nonneg_number v)"

definition complete_row :: "row \<Rightarrow> bool" where
  "complete_row r =
     (map fst r = feature_keys
      \<and> (case map_of r ''function_name'' of Some (PStr name) \<Rightarrow> True | _ \<Rightarrow> False)
      \<and> list_all (has_number r) numeric_keys)"

lemma true_div_nonneg: "nonneg_number (true_div a b)"
  by (simp add: true_div_def)

lemma instruction_per_block_nonneg: "nonneg_number (get_instruction_per_block t)"
  by (simp add: get_instruction_per_block_def Let_def true_div_nonneg)

lemma successor_per_block_nonneg: "nonneg_number (get_successor_per_block t)"
  by (simp add: get_successor_per_block_def Let_def true_div_nonneg)

lemma loop_features_shape:
  "\<exists>a b c d e. get_loop_features t =
      [(''avg_nested_loop_level'', a), (''instr_per_loop'', b),
       (''block_with_multiple_succ_per_loop'', c), (''max_loop_depth'', d),
       (''num_callsite_in_loop'', e)]
     \<and> nonneg_number a \<and> nonneg_number b \<and> nonneg_number c \<and> nonneg_number d \<and> nonneg_number e"
  by (simp add: get_loop_features_def Let_def true_div_nonneg)

lemma py_int_nonneg: "py_int s = Some n \<Longrightarrow> 0 \<le> n"
  by (auto simp: py_int_def split: if_splits)

lemma entry_freq_nonneg: "entry_freq_of t = Some n \<Longrightarrow> 0 \<le> n"
  by (auto simp: entry_freq_of_def split: option.splits dest: py_int_nonneg)

lemma block_freqs_nonneg: "block_freqs_of bs = Some fs \<Longrightarrow> \<forall>x\<in>set fs. 0 \<le> x"
proof (induction bs arbitrary: fs)
  case Nil
  then show ?case by simp
next
  case (Cons b bs)
  then show ?case
    by (auto split: option.splits dest: py_int_nonneg)
qed

lemma fold_max_ge: "(x::int) \<le> fold max ys x"
proof (induction ys arbitrary: x)
  case Nil
  show ?case by simp
next
  case (Cons y ys)
  have "x \<le> max y x" by simp
  also have "\<dots> \<le> fold max ys (max y x)" by (rule Cons.IH)
  finally show ?case by simp
qed

lemma max_freq_nonneg: "\<forall>x\<in>set fs. 0 \<le> x \<Longrightarrow> 0 \<le> max_freq fs"
proof (cases fs)
  case Nil
  then show ?thesis by (simp add: max_freq_def)
next
  case (Cons x ys)
  assume "\<forall>x\<in>set fs. 0 \<le> x"
  with Cons have "0 \<le> x" by simp
  also have "x \<le> fold max ys x" by (rule fold_max_ge)
  finally show ?thesis using Cons by (simp add: max_freq_def)
qed

lemma call_graph_features_shape:
  "\<exists>a b c d e. get_call_graph_features fs t =
      Some [(''caller_height'', a), (''call_usage'', b), (''is_recursive'', c),
            (''entry_block_freq'', d), (''max_callsite_block_freq'', e)]
     \<and> nonneg_number a \<and> nonneg_number b \<and> nonneg_number c \<and> nonneg_number d \<and> nonneg_number e"
proof (cases "entry_freq_of t")
  case None
  then show ?thesis
    by (simp add: get_call_graph_features_def call_graph_try_def Let_def)
next
  case (Some ef)
  note ef = this
  show ?thesis
  proof (cases "block_freqs_of (get_basic_blocks t)")
    case None
    with ef show ?thesis
      by (simp add: get_call_graph_features_def call_graph_try_def Let_def)
  next
    case (Some bf)
    from caller_height_returns[of fs t] obtain h where h: "calculate_caller_height fs t = Some h"
      by blast
    have "0 \<le> ef" using ef by (rule entry_freq_nonneg)
    moreover have "0 \<le> max_freq bf" using block_freqs_nonneg[OF Some] by (rule max_freq_nonneg)
    ultimately show ?thesis using ef Some h
      by (simp add: get_call_graph_features_def call_graph_try_def Let_def)
  qed
qed

lemma is_local_nonneg: "0 \<le> is_local t"
  by (simp add: is_local_def)

lemma feature_row_shape:
  "\<exists>a b c d e a' b' c' d' e'. feature_row fs n t =
      Some [(''function_name'', PStr n),
            (''instruction_per_block'', get_instruction_per_block t),
            (''successor_per_block'', get_successor_per_block t),
            (''calls_no'', PInt (int (get_calls_no t))),
            (''is_local'', PInt (is_local t)),
            (''ret_count'', PInt (int (count_specific_instructions t ''ret''))),
            (''fmul_count'', PInt (int (count_specific_instructions t ''fmul''))),
            (''fdiv_count'', PInt (int (count_specific_instructions t ''fdiv''))),
            (''fadd_count'', PInt (int (count_specific_instructions t ''fadd''))),
            (''fsub_count'', PInt (int (count_specific_instructions t ''fsub''))),
            (''avg_nested_loop_level'', a), (''instr_per_loop'', b),
            (''block_with_multiple_succ_per_loop'', c), (''max_loop_depth'', d),
            (''num_callsite_in_loop'', e),
            (''caller_height'', a'), (''call_usage'', b'), (''is_recursive'', c'),
            (''entry_block_freq'', d'), (''max_callsite_block_freq'', e')]
     \<and> nonneg_number a \<and> nonneg_number b \<and> nonneg_number c \<and> nonneg_number d \<and> nonneg_number e
     \<and> nonneg_number a' \<and> nonneg_number b' \<and> nonneg_number c' \<and> nonneg_number d' \<and> nonneg_number e'"
proof -
  from loop_features_shape[of t] obtain a b c d e where
    l: "get_loop_features t =
      [(''avg_nested_loop_level'', a), (''instr_per_loop'', b),
       (''block_with_multiple_succ_per_loop'', c), (''max_loop_depth'', d),
       (''num_callsite_in_loop'', e)]"
    and ln: "nonneg_number a" "nonneg_number b" "nonneg_number c" "nonneg_number d" "nonneg_number e"
    by blast
  from call_graph_features_shape[of fs t] obtain a' b' c' d' e' where
    c: "get_call_graph_features fs t =
      Some [(''caller_height'', a'), (''call_usage'', b'), (''is_recursive'', c'),
            (''entry_block_freq'', d'), (''max_callsite_block_freq'', e')]"
    and cn: "nonneg_number a'" "nonneg_number b'" "nonneg_number c'" "nonneg_number d'" "nonneg_number e'"
    by blast
  have "feature_row fs n t =
      Some [(''function_name'', PStr n),
            (''instruction_per_block'', get_instruction_per_block t),
            (''successor_per_block'', get_successor_per_block t),
            (''calls_no'', PInt (int (get_calls_no t))),
            (''is_local'', PInt (is_local t)),
            (''ret_count'', PInt (int (count_specific_instructions t ''ret''))),
            (''fmul_count'', PInt (int (count_specific_instructions t ''fmul''))),
            (''fdiv_count'', PInt (int (count_specific_instructions t ''fdiv''))),
            (''fadd_count'', PInt (int (count_specific_instructions t ''fadd''))),
            (''fsub_count'', PInt (int (count_specific_instructions t ''fsub''))),
            (''avg_nested_loop_level'', a), (''instr_per_loop'', b),
            (''block_with_multiple_succ_per_loop'', c), (''max_loop_depth'', d),
            (''num_callsite_in_loop'', e),
            (''caller_height'', a'), (''call_usage'', b'), (''is_recursive'', c'),
            (''entry_block_freq'', d'), (''max_callsite_block_freq'', e')]"
    by (simp add: feature_row_def Let_def l c dict_update_def)
  with ln cn show ?thesis by blast
qed

lemma feature_row_complete:
  "\<exists>r. feature_row fs n t = Some r \<and> complete_row r
       \<and> map_of r ''function_name'' = Some (PStr n)
       \<and> map_of r ''instruction_per_block'' = Some (get_instruction_per_block t)
       \<and> map_of r ''successor_per_block'' = Some (get_successor_per_block t)"
proof -
  from feature_row_shape[of fs n t] obtain r a b c d e a' b' c' d' e' where
    r: "feature_row fs n t = Some r"
    and rr: "r = [(''function_name'', PStr n),
            (''instruction_per_block'', get_instruction_per_block t),
            (''successor_per_block'', get_successor_per_block t),
            (''calls_no'', PInt (int (get_calls_no t))),
            (''is_local'', PInt (is_local t)),
            (''ret_count'', PInt (int (count_specific_instructions t ''ret''))),
            (''fmul_count'', PInt (int (count_specific_instructions t ''fmul''))),
            (''fdiv_count'', PInt (int (count_specific_instructions t ''fdiv''))),
            (''fadd_count'', PInt (int (count_specific_instructions t ''fadd''))),
            (''fsub_count'', PInt (int (count_specific_instructions t ''fsub''))),
            (''avg_nested_loop_level'', a), (''instr_per_loop'', b),
            (''block_with_multiple_succ_per_loop'', c), (''max_loop_depth'', d),
            (''num_callsite_in_loop'', e),
            (''caller_height'', a'), (''call_usage'', b'), (''is_recursive'', c'),
            (''entry_block_freq'', d'), (''max_callsite_block_freq'', e')]"
    and nn: "nonneg_number a" "nonneg_number b" "nonneg_number c" "nonneg_number d" "nonneg_number e"
       "nonneg_number a'" "nonneg_number b'" "nonneg_number c'" "nonneg_number d'" "nonneg_number e'"
    by blast
  have "complete_row r"
    unfolding rr complete_row_def
    by (simp add: feature_keys_def numeric_keys_def has_number_def nn
        instruction_per_block_nonneg successor_per_block_nonneg is_local_nonneg)
  moreover have "map_of r ''function_name'' = Some (PStr n)"
     "map_of r ''instruction_per_block'' = Some (get_instruction_per_block t)"
     "map_of r ''successor_per_block'' = Some (get_successor_per_block t)"
    unfolding rr by simp_all
  ultimately show ?thesis using r by blast
qed

lemma feature_rows_total:
  "\<exists>rows. feature_rows fs gs = Some rows
      \<and> list_all2 (\<lambda>g r. feature_row fs (fst g) (snd g) = Some r \<and> complete_row r) gs rows"
proof (induction gs)
  case Nil
  show ?case by simp
next
  case (Cons g gs)
  obtain n t where g: "g = (n, t)" by (cases g)
  from feature_row_complete[of fs n t] obtain r where
    r: "feature_row fs n t = Some r" "complete_row r" by blast
  from Cons obtain rows where rows: "feature_rows fs gs = Some rows"
    "list_all2 (\<lambda>g r. feature_row fs (fst g) (snd g) = Some r \<and> complete_row r) gs rows" by blast
  have "feature_rows fs (g # gs) = Some (r # rows)" using g r rows by simp
  moreover have "list_all2 (\<lambda>g r. feature_row fs (fst g) (snd g) = Some r \<and> complete_row r)
      (g # gs) (r # rows)" using g r rows by simp
  ultimately show ?case by blast
qed

definition two_function_module :: string where
  "two_function_module =
     ''define @A(i1 %c) {\<newline>e:\<newline> call @B()\<newline> call @B()\<newline> br i1 %c, label %x\<newline>}\<newline>define @B() {\<newline>e:\<newline> call @B()\<newline> ret\<newline>}\<newline>''"

lemma two_function_module_rows:
  "extract_all_features two_function_module =
     Some [[(''function_name'', PStr ''A''),
            (''instruction_per_block'', PFloat (3 / 2)),
            (''successor_per_block'', PFloat (1 / 2)), (''calls_no'', PInt 3),
            (''is_local'', PInt 0), (''ret_count'', PInt 1),
            (''fmul_count'', PInt 0), (''fdiv_count'', PInt 0),
            (''fadd_count'', PInt 0), (''fsub_count'', PInt 0),
            (''avg_nested_loop_level'', PInt 0), (''instr_per_loop'', PInt 0),
            (''block_with_multiple_succ_per_loop'', PInt 0),
            (''max_loop_depth'', PInt 0), (''num_callsite_in_loop'', PInt 0),
            (''caller_height'', PInt 0), (''call_usage'', PInt 3),
            (''is_recursive'', PInt 0), (''entry_block_freq'', PInt 0),
            (''max_callsite_block_freq'', PInt 0)]]"
  by code_simp








section \<open>Functions without basic blocks\<close>

lemma no_blocks_instruction: "get_basic_blocks t = [] \<Longrightarrow> get_instruction_per_block t = PInt 0"
  by (simp add: get_instruction_per_block_def)

lemma no_blocks_successor: "get_basic_blocks t = [] \<Longrightarrow> get_successor_per_block t = PInt 0"
  by (simp add: get_successor_per_block_def)

lemma feature_rows_member:
  assumes "feature_rows fs gs = Some rows" and "(n, t) \<in> set gs"
  shows "\<exists>r \<in> set rows. feature_row fs n t = Some r"
  using assms
proof (induction gs arbitrary: rows)
  case Nil
  then show ?case by simp
next
  case (Cons g gs)
  obtain n' t' where g: "g = (n', t')" by (cases g)
  from Cons.prems(1) g obtain r rest where
    r: "feature_row fs n' t' = Some r" and rest: "feature_rows fs gs = Some rest"
    and rows: "rows = r # rest"
    by (auto split: option.splits)
  show ?case
  proof (cases "(n, t) = g")
    case True
    with g r rows show ?thesis by auto
  next
    case False
    with Cons.prems(2) have "(n, t) \<in> set gs" by simp
    from Cons.IH[OF rest this] rows show ?thesis by auto
  qed
qed

definition empty_body_module :: string where
  "empty_body_module = ''define @f() {\<newline>}\<newline>''"

lemma empty_body_module_functions:
  "split_into_functions empty_body_module = [(''f'', ''define @f() {\<newline>}'')]"
  by code_simp

lemma empty_body_no_blocks: "get_basic_blocks ''define @f() {\<newline>}'' = []"
  by code_simp

text \<open>
  C8. A function of the module whose text yields no basic block has 0 for both
  per-block averages (the division by the block count is guarded), and the aggregator
  still returns a row for it, holding these zeros.
\<close>

theorem zero_blocks_zero_averages:
  assumes "(func_name, func_text) \<in> set (split_into_functions ir_content)"
    and "get_basic_blocks func_text = []"
  shows "get_instruction_per_block func_text = PInt 0
    \<and> get_successor_per_block func_text = PInt 0
    \<and> (\<exists>rows row. extract_all_features ir_content = Some rows \<and> row \<in> set rows
          \<and> map_of row ''function_name'' = Some (PStr func_name)
          \<and> map_of row ''instruction_per_block'' = Some (PInt 0)
          \<and> map_of row ''successor_per_block'' = Some (PInt 0))"
proof -
  let ?fs = "split_into_functions ir_content"
  from feature_rows_total[of ?fs ?fs] obtain rows where
    rows: "feature_rows ?fs ?fs = Some rows" by blast
  from feature_rows_member[OF rows assms(1)] obtain row where
    row: "row \<in> set rows" "feature_row ?fs func_name func_text = Some row" by blast
  from feature_row_complete[of ?fs func_name func_text] row(2) have
    "map_of row ''function_name'' = Some (PStr func_name)"
    "map_of row ''instruction_per_block'' = Some (get_instruction_per_block func_text)"
    "map_of row ''successor_per_block'' = Some (get_successor_per_block func_text)"
    by auto
  moreover have "extract_all_features ir_content = Some rows"
    using rows by (simp add: extract_all_features_def Let_def)
  ultimately show ?thesis
    using row(1) no_blocks_instruction[OF assms(2)] no_blocks_successor[OF assms(2)]
    by auto
qed

theorem zero_blocks_zero_averages_witness:
  "(''f'', ''define @f() {\<newline>}'') \<in> set (split_into_functions empty_body_module)
   \<and> get_basic_blocks ''define @f() {\<newline>}'' = []
   \<and> get_instruction_per_block ''define @f() {\<newline>}'' = PInt 0
   \<and> get_successor_per_block ''define @f() {\<newline>}'' = PInt 0
   \<and> (\<exists>rows row. extract_all_features empty_body_module = Some rows \<and> row \<in> set rows
          \<and> map_of row ''function_name'' = Some (PStr ''f'')
          \<and> map_of row ''instruction_per_block'' = Some (PInt 0)
          \<and> map_of row ''successor_per_block'' = Some (PInt 0))"
proof -
  have a: "(''f'', ''define @f() {\<newline>}'') \<in> set (split_into_functions empty_body_module)"
    by (simp add: empty_body_module_functions)
  from zero_blocks_zero_averages[OF a empty_body_no_blocks] a empty_body_no_blocks
  show ?thesis by blast
qed

section \<open>Order of the basic blocks\<close>

text \<open>
  \<open>in_order bs t\<close>: the texts \<open>bs\<close> occur in \<open>t\<close> one after the other, from left to right
  and without overlap. \<open>entry_span\<close> is the text before the first label line, the first
  piece of the split. A text is \<open>solid\<close> when it is not empty and neither starts nor ends
  with whitespace.
\<close>

fun in_order :: "string list \<Rightarrow> string \<Rightarrow> bool" where
  "in_order [] t = True"
| "in_order (b # bs) t = (\<exists>pre post. t = pre @ b @ post \<and> in_order bs post)"

definition entry_span :: "string \<Rightarrow> string" where
  "entry_span function_text =
     (case re_search label_pattern function_text of
        None \<Rightarrow> function_text
      | Some mt \<Rightarrow> consumed (None, function_text) (fst mt))"

definition solid :: "string \<Rightarrow> bool" where
  "solid b = (b \<noteq> [] \<and> \<not> is_space (hd b) \<and> \<not> is_space (last b))"

lemma in_order_mono: "in_order bs post \<Longrightarrow> in_order bs (pre @ post)"
proof (cases bs)
  case Nil
  then show ?thesis by simp
next
  case (Cons b bs')
  assume "in_order bs post"
  with Cons obtain p q where "post = p @ b @ q" "in_order bs' q" by auto
  then have "pre @ post = (pre @ p) @ b @ q \<and> in_order bs' q" by simp
  then show ?thesis unfolding Cons in_order.simps by blast
qed

lemma consumed_suffix: "suffix (snd z') (snd z) \<Longrightarrow> snd z = consumed z z' @ snd z'"
  by (cases z; cases z') (auto simp: suffix_def)

lemma strip_sublist: "\<exists>x y. s = x @ strip s @ y"
proof -
  let ?d = "dropWhile is_space s"
  have "s = takeWhile is_space s @ ?d" by simp
  moreover have "?d = rev (takeWhile is_space (rev ?d) @ dropWhile is_space (rev ?d))"
    by (simp only: takeWhile_dropWhile_id rev_rev_ident)
  then have "?d = rev (dropWhile is_space (rev ?d)) @ rev (takeWhile is_space (rev ?d))"
    by (simp only: rev_append)
  then have "?d = strip s @ rev (takeWhile is_space (rev ?d))"
    by (simp only: strip_def)
  ultimately have "s = takeWhile is_space s @ strip s @ rev (takeWhile is_space (rev ?d))"
    by simp
  then show ?thesis by blast
qed

lemma last_dropWhile: "xs \<noteq> [] \<Longrightarrow> \<not> P (last xs) \<Longrightarrow> dropWhile P xs \<noteq> [] \<and> last (dropWhile P xs) = last xs"
  by (induction xs) (auto split: if_splits)

lemma strip_solid: "strip s \<noteq> [] \<Longrightarrow> solid (strip s)"
proof -
  assume ne: "strip s \<noteq> []"
  let ?d = "dropWhile is_space s"
  let ?e = "dropWhile is_space (rev ?d)"
  have e: "?e \<noteq> []" using ne by (simp add: strip_def)
  have d: "?d \<noteq> []"
  proof
    assume "?d = []"
    then have "?e = []" by (simp only: rev.simps dropWhile.simps)
    with e show False by simp
  qed
  have hd_e: "\<not> is_space (hd ?e)" using e by (rule hd_dropWhile)
  have hd_d: "\<not> is_space (hd ?d)" using d by (rule hd_dropWhile)
  have "last (rev ?d) = hd ?d" using d by (simp add: last_rev)
  with hd_d d have "last ?e = hd ?d"
    using last_dropWhile[of "rev ?d" is_space] by simp
  then have "hd (strip s) = hd ?d" using e by (simp add: strip_def hd_rev)
  moreover have "last (strip s) = hd ?e" using e by (simp add: strip_def last_rev)
  ultimately show ?thesis using ne hd_e hd_d by (simp add: solid_def)
qed

lemma in_order_blocks:
  "in_order ps t \<Longrightarrow> in_order (map strip (filter (\<lambda>b. strip b \<noteq> []) ps)) t"
proof (induction ps arbitrary: t)
  case Nil
  then show ?case by simp
next
  case (Cons b bs)
  from Cons.prems obtain pre post where t: "t = pre @ b @ post" and o: "in_order bs post" by auto
  have ih: "in_order (map strip (filter (\<lambda>b. strip b \<noteq> []) bs)) post" using o by (rule Cons.IH)
  show ?case
  proof (cases "strip b = []")
    case True
    have "t = (pre @ b) @ post" using t by simp
    with ih True show ?thesis using in_order_mono by simp
  next
    case False
    obtain x y where b: "b = x @ strip b @ y" using strip_sublist by blast
    have "t = (pre @ x) @ strip b @ (y @ post)" using t b by (metis append.assoc)
    moreover have "in_order (map strip (filter (\<lambda>b. strip b \<noteq> []) bs)) (y @ post)"
      using ih by (rule in_order_mono)
    ultimately have "in_order (strip b # map strip (filter (\<lambda>b. strip b \<noteq> []) bs)) t"
      unfolding in_order.simps by blast
    then show ?thesis using False by simp
  qed
qed

lemma pieces_head:
  "\<exists>p0 ps. pieces (finditer r adv z) z = p0 # ps \<and> prefix p0 (snd z)
       \<and> in_order ps (drop (length p0) (snd z))
       \<and> p0 = (case scan r adv z of None \<Rightarrow> snd z | Some mt \<Rightarrow> consumed z (fst mt))"
proof (induction r adv z rule: finditer.induct)
  case (1 r adv z)
  show ?case
  proof (cases "scan r adv z")
    case None
    then show ?thesis by (subst finditer.simps) simp
  next
    case (Some mt)
    obtain zs ze g where mt: "mt = (zs, ze, g)" by (cases mt)
    let ?adv = "length (snd ze) = length (snd zs)"
    have sc: "scan r adv z = Some (zs, ze, g)" using Some mt by simp
    from scan_suffix[OF sc] have
      s1: "suffix (snd zs) (snd z)" and s2: "suffix (snd ze) (snd zs)" by blast+
    have "\<exists>p0 ps. pieces (finditer r ?adv ze) ze = p0 # ps \<and> prefix p0 (snd ze)
       \<and> in_order ps (drop (length p0) (snd ze))
       \<and> p0 = (case scan r ?adv ze of None \<Rightarrow> snd ze | Some mt \<Rightarrow> consumed ze (fst mt))"
      by (rule "1.IH"[OF Some, of zs "(ze, g)" ze g]) (simp_all add: mt)
    then obtain q0 qs where
      q: "pieces (finditer r ?adv ze) ze = q0 # qs" "prefix q0 (snd ze)"
         "in_order qs (drop (length q0) (snd ze))" by blast
    have z: "snd z = consumed z zs @ snd zs" using s1 by (rule consumed_suffix)
    have zs: "snd zs = consumed zs ze @ snd ze" using s2 by (rule consumed_suffix)
    from q(2) obtain rest where ze: "snd ze = q0 @ rest" by (auto simp: prefix_def)
    have rest: "drop (length q0) (snd ze) = rest" by (simp add: ze)
    have "snd zs = consumed zs ze @ snd ze" by (rule zs)
    also have "\<dots> = consumed zs ze @ q0 @ rest" by (simp only: ze)
    finally have "\<exists>pre post. snd zs = pre @ q0 @ post \<and> in_order qs post"
      using q(3) rest by auto
    then have "in_order (q0 # qs) (snd zs)" by simp
    moreover have "drop (length (consumed z zs)) (snd z) = snd zs"
      by (subst z) simp
    moreover have "prefix (consumed z zs) (snd z)" by (subst z) simp
    moreover have "pieces (finditer r adv z) z = consumed z zs # pieces (finditer r ?adv ze) ze"
      by (subst finditer.simps) (simp add: sc)
    moreover have "(case scan r adv z of None \<Rightarrow> snd z | Some mt \<Rightarrow> consumed z (fst mt)) = consumed z zs"
      by (simp add: sc)
    ultimately show ?thesis using q(1) by simp
  qed
qed

lemma basic_blocks_solid: "list_all solid (get_basic_blocks t)"
  by (auto simp: get_basic_blocks_def Let_def list_all_iff intro: strip_solid)

definition labelled_text :: string where
  "labelled_text = ''define {\<newline>entry:\<newline>  x\<newline>\<newline>  a.b:  \<newline>\<newline> c: d\<newline>''"

lemma labelled_text_blocks: "get_basic_blocks labelled_text = [''x'', ''d'']"
  by code_simp

lemma labelled_text_entry: "entry_span labelled_text = ''define {''"
  by code_simp

text \<open>
  C6. For every function text the blocks returned by the segmenter occur, in the order of
  the returned list, in the part of the text that follows the span before the first label
  line; that span is not among them; and no block is empty or made of whitespace only.
\<close>

theorem basic_blocks_in_order:
  "prefix (entry_span function_text) function_text
   \<and> in_order (get_basic_blocks function_text)
        (drop (length (entry_span function_text)) function_text)
   \<and> list_all solid (get_basic_blocks function_text)"
proof -
  from pieces_head[of label_pattern False "(None, function_text)"] obtain p0 ps where
    p: "pieces (finditer label_pattern False (None, function_text)) (None, function_text) = p0 # ps"
       "prefix p0 (snd (None :: char option, function_text))"
       "in_order ps (drop (length p0) (snd (None :: char option, function_text)))"
    and p0: "p0 = (case scan label_pattern False (None, function_text) of
                None \<Rightarrow> snd (None :: char option, function_text)
              | Some mt \<Rightarrow> consumed (None, function_text) (fst mt))"
    by blast
  have e: "p0 = entry_span function_text"
    unfolding p0 entry_span_def re_search_def
    by (cases "scan label_pattern False (None, function_text)") simp_all
  have p1: "re_split label_pattern function_text = p0 # ps"
    using p(1) by (simp add: re_split_def re_finditer_def)
  have p2: "prefix p0 function_text" using p(2) by simp
  have p3: "in_order ps (drop (length p0) function_text)" using p(3) by simp
  have "get_basic_blocks function_text = map strip (filter (\<lambda>b. strip b \<noteq> []) ps)"
    using p1 by (simp add: get_basic_blocks_def)
  with in_order_blocks[OF p3] p2 e basic_blocks_solid[of function_text]
  show ?thesis by simp
qed

theorem basic_blocks_in_order_witness:
  "get_basic_blocks labelled_text = [''x'', ''d'']
   \<and> in_order [''x'', ''d''] ''\<newline>entry:\<newline>  x\<newline>\<newline>  a.b:  \<newline>\<newline> c: d\<newline>''
   \<and> list_all solid [''x'', ''d'']"
  using basic_blocks_in_order[of labelled_text] labelled_text_blocks labelled_text_entry
  by (simp add: labelled_text_def)

section \<open>The extracted function name\<close>

text \<open>
  \<open>first_token\<close> follows the words of the specification: the first \<^verbatim>\<open>@\<close> that is directly
  followed by word characters or dots, and the longest run of them. \<open>header_line\<close> is the
  text up to the first newline.
\<close>

definition is_name_char :: "char \<Rightarrow> bool" where
  "is_name_char c = (is_word c \<or> c = CHR ''.'')"

fun first_token :: "string \<Rightarrow> string option" where
  "first_token [] = None"
| "first_token (x # xs) =
     (if x = CHR ''@'' \<and> takeWhile is_name_char xs \<noteq> [] then Some (takeWhile is_name_char xs)
      else first_token xs)"

definition header_line :: "string \<Rightarrow> string" where
  "header_line function_text = takeWhile (\<lambda>c. c \<noteq> CHR 0x0A) function_text"

lemma steps_last:
  "steps c (p, s) \<noteq> [] \<and> snd (last (steps c (p, s))) = dropWhile (in_class c) s"
  by (induction c "(p, s)" arbitrary: p s rule: steps.induct) auto

lemma take_length_dropWhile: "take (length xs - length (dropWhile P xs)) xs = takeWhile P xs"
proof -
  have "length xs = length (takeWhile P xs) + length (dropWhile P xs)"
    by (metis length_append takeWhile_dropWhile_id)
  then have "length xs - length (dropWhile P xs) = length (takeWhile P xs)" by simp
  then show ?thesis by (metis append_eq_conv_conj takeWhile_dropWhile_id)
qed

lemma name_class: "in_class (OneOf [W, C CHR ''.'']) c = is_name_char c"
  by (auto simp: is_name_char_def)

lemma m_name_pattern:
  "m name_pattern (p, s) =
     (case s of
        x # y # ys \<Rightarrow>
          if x = CHR ''@'' \<and> is_name_char y
          then map (\<lambda>z'. (z', Some (consumed (Some CHR ''@'', y # ys) z')))
                 (rev (steps (OneOf [W, C CHR ''.'']) (Some y, ys)))
          else []
      | _ \<Rightarrow> [])"
proof (cases s)
  case Nil
  then show ?thesis by (simp add: name_pattern_def seqs_def Plus_def)
next
  case (Cons x xs)
  show ?thesis
  proof (cases xs)
    case Nil
    with Cons show ?thesis by (simp add: name_pattern_def seqs_def Plus_def)
  next
    case (Cons y ys)
    with \<open>s = x # xs\<close> show ?thesis
      by (simp add: name_pattern_def seqs_def Plus_def name_class comp_def map_concat del: in_class.simps)
  qed
qed

lemma head_name_hit:
  "(case m name_pattern (p, s) of [] \<Rightarrow> None | h # _ \<Rightarrow> Some (snd h)) =
     (case s of
        [] \<Rightarrow> None
      | x # xs \<Rightarrow> if x = CHR ''@'' \<and> takeWhile is_name_char xs \<noteq> []
                 then Some (Some (takeWhile is_name_char xs)) else None)"
proof (cases s)
  case Nil
  then show ?thesis by (simp add: m_name_pattern)
next
  case (Cons x xs)
  note s = this
  show ?thesis
  proof (cases xs)
    case Nil
    with s show ?thesis by (simp add: m_name_pattern)
  next
    case (Cons y ys)
    show ?thesis
    proof (cases "x = CHR ''@'' \<and> is_name_char y")
      case False
      with s Cons show ?thesis by (auto simp: m_name_pattern)
    next
      case True
      let ?c = "OneOf [W, C CHR ''.'']"
      let ?st = "steps ?c (Some y, ys)"
      from steps_last[of ?c "Some y" ys] have ne: "?st \<noteq> []"
        and l: "snd (last ?st) = dropWhile is_name_char ys"
        by (simp_all add: name_class[abs_def])
      obtain z zs where r: "rev ?st = z # zs" using ne by (cases "rev ?st") auto
      then have "z = last ?st" using ne by (metis last_rev list.sel(1) rev_rev_ident hd_rev)
      with l have z: "snd z = dropWhile is_name_char ys" by simp
      have "consumed (Some CHR ''@'', y # ys) z = takeWhile is_name_char (y # ys)"
      proof -
        have "dropWhile is_name_char (y # ys) = dropWhile is_name_char ys" using True by simp
        then have "consumed (Some CHR ''@'', y # ys) z
                 = take (length (y # ys) - length (dropWhile is_name_char (y # ys))) (y # ys)"
          using z by (cases z) simp
        then show ?thesis by (simp only: take_length_dropWhile)
      qed
      moreover have "takeWhile is_name_char (y # ys) \<noteq> []" using True by simp
      ultimately show ?thesis using s Cons True r by (simp add: m_name_pattern)
    qed
  qed
qed

lemma scan_name_pattern:
  "map_option group1 (scan name_pattern False (p, s)) = first_token s"
proof (induction s arbitrary: p)
  case Nil
  from head_name_hit[of p "[]"] show ?case
    by (simp add: scan.simps split: list.splits)
next
  case (Cons x xs)
  show ?case
  proof (cases "m name_pattern (p, x # xs)")
    case Nil
    with head_name_hit[of p "x # xs"] have "\<not> (x = CHR ''@'' \<and> takeWhile is_name_char xs \<noteq> [])"
      by (auto split: if_splits)
    then have "first_token (x # xs) = first_token xs" by auto
    with Nil Cons.IH[of "Some x"] show ?thesis
      by (simp only: scan.simps[of name_pattern False p "x # xs"]) simp
  next
    case (Cons h hs)
    with head_name_hit[of p "x # xs"] have
      a: "x = CHR ''@'' \<and> takeWhile is_name_char xs \<noteq> []"
      and b: "snd h = Some (takeWhile is_name_char xs)"
      by (auto split: if_splits)
    have "scan name_pattern False (p, x # xs) = Some ((p, x # xs), fst h, snd h)"
      using Cons by (simp add: scan.simps[of name_pattern False p "x # xs"])
    then have "map_option group1 (scan name_pattern False (p, x # xs))
               = Some (takeWhile is_name_char xs)"
      by (simp add: b)
    moreover have "first_token (x # xs) = Some (takeWhile is_name_char xs)" using a by simp
    ultimately show ?thesis by simp
  qed
qed

definition quoted_name_region :: string where
  "quoted_name_region = ''define void @\"a b\"() {\<newline>  call void @g()\<newline>}''"

text \<open>
  C7, as amended. For every region text the extracted name is the first symbol-reference
  token of the whole text, in the header line or after it; when the whole text holds no
  such token the name is \<^verbatim>\<open>unknown\<close>. The extraction never fails.
\<close>

theorem function_name_first_token:
  "get_function_name function_text =
     (case first_token function_text of None \<Rightarrow> ''unknown'' | Some tok \<Rightarrow> tok)"
proof -
  from scan_name_pattern[of None function_text]
  have "first_token function_text = map_option group1 (re_search name_pattern function_text)"
    by (simp add: re_search_def)
  then show ?thesis
    by (cases "re_search name_pattern function_text") (simp_all add: get_function_name_def)
qed

theorem function_name_first_token_witness:
  "first_token quoted_name_region = Some ''g'' \<and> get_function_name quoted_name_region = ''g''"
proof -
  have "first_token quoted_name_region = Some ''g''" by code_simp
  with function_name_first_token[of quoted_name_region] show ?thesis by simp
qed

theorem name_outside_header_counterexample:
  "re_search name_pattern (header_line quoted_name_region) = None
   \<and> get_function_name quoted_name_region \<noteq> ''unknown''"
  by code_simp

section \<open>The body of a loop\<close>

text \<open>
  \<open>brace_net\<close> is the brace count of a text: its opening braces minus its closing ones.
  \<open>scanned t e e'\<close> is the part of \<open>t\<close> that the loop reads while \<^verbatim>\<open>end_idx\<close> goes from \<open>e\<close>
  to \<open>e'\<close>.
\<close>

fun brace_net :: "string \<Rightarrow> int" where
  "brace_net [] = 0"
| "brace_net (x # xs) =
     (if x = CHR ''{'' then 1 else if x = CHR ''}'' then - 1 else 0) + brace_net xs"

definition scanned :: "string \<Rightarrow> nat \<Rightarrow> nat \<Rightarrow> string" where
  "scanned t e e' = drop (Suc e) (take (Suc e') t)"

lemma scanned_Cons:
  assumes "Suc e < length t" and "Suc e \<le> e'"
  shows "scanned t e e' = t ! Suc e # scanned t (Suc e) e'"
proof -
  have "Suc e < length (take (Suc e') t)" using assms by simp
  then have "drop (Suc e) (take (Suc e') t)
             = take (Suc e') t ! Suc e # drop (Suc (Suc e)) (take (Suc e') t)"
    by (rule Cons_nth_drop_Suc[symmetric])
  moreover have "take (Suc e') t ! Suc e = t ! Suc e" using assms by simp
  ultimately show ?thesis by (simp add: scanned_def)
qed

lemma brace_scan_result:
  "\<exists>e'. brace_scan t c e = Some e' \<and> e \<le> e' \<and> (e' = e \<or> e' < length t)
      \<and> (\<forall>k < e' - e. 0 < int c + brace_net (take k (scanned t e e')))
      \<and> (Suc e' < length t \<longrightarrow> int c + brace_net (scanned t e e') = 0)"
proof (induction t c e rule: brace_scan.induct)
  case (1 t c e)
  show ?case
  proof (cases "c > 0 \<and> int e < int (length t) - 1")
    case False
    then have "brace_scan t c e = Some e"
      by (subst brace_scan.simps) (simp only: if_False)
    moreover have "Suc e < length t \<Longrightarrow> c = 0" using False by auto
    ultimately show ?thesis by (auto simp: scanned_def)
  next
    case True
    then have c: "c > 0" and lt: "Suc e < length t" by auto
    let ?x = "t ! Suc e"
    let ?d = "if ?x = CHR ''{'' then 1 else if ?x = CHR ''}'' then - 1 else (0::int)"
    let ?c' = "if ?x = CHR ''{'' then c + 1 else if ?x = CHR ''}'' then c - 1 else c"
    have ch: "char_at t (e + 1) = Some ?x" using lt by (simp add: char_at_def)
    have c': "int ?c' = int c + ?d" using c by auto
    have step: "brace_scan t c e = brace_scan t ?c' (e + 1)"
      using True ch by (subst brace_scan.simps) simp
    from "1.IH"[OF True ch] obtain e' where
      r: "brace_scan t ?c' (e + 1) = Some e'" and le: "e + 1 \<le> e'"
      and bound: "e' = e + 1 \<or> e' < length t"
      and pos: "\<forall>k < e' - (e + 1). 0 < int ?c' + brace_net (take k (scanned t (e + 1) e'))"
      and fin: "Suc e' < length t \<longrightarrow> int ?c' + brace_net (scanned t (e + 1) e') = 0"
      by blast
    have sc: "scanned t e e' = ?x # scanned t (Suc e) e'"
      using lt le by (intro scanned_Cons) simp_all
    have "\<forall>k < e' - e. 0 < int c + brace_net (take k (scanned t e e'))"
    proof (intro allI impI)
      fix k assume k: "k < e' - e"
      show "0 < int c + brace_net (take k (scanned t e e'))"
      proof (cases k)
        case 0
        then show ?thesis using c by simp
      next
        case (Suc j)
        with k have "j < e' - (e + 1)" by simp
        with pos have "0 < int ?c' + brace_net (take j (scanned t (e + 1) e'))" by blast
        then show ?thesis unfolding sc Suc c' by simp
      qed
    qed
    moreover have "Suc e' < length t \<longrightarrow> int c + brace_net (scanned t e e') = 0"
      using fin unfolding sc c' by (auto split: if_splits)
    moreover have "e' = e \<or> e' < length t" using bound lt by auto
    ultimately show ?thesis using step r le by auto
  qed
qed

lemma str_find_bound: "str_find sub t = Some s \<Longrightarrow> s \<le> length t"
  by (induction t arbitrary: s) (auto split: if_splits)

definition balanced_function :: string where
  "balanced_function = ''define void @f() {\<newline>loop: x\<newline>  ret void\<newline>}''"

lemma balanced_function_find: "str_find ''loop: x\<newline>'' balanced_function = Some 19"
  by code_simp

lemma balanced_function_body:
  "get_loop_body ''loop: x\<newline>'' balanced_function = ''loop: x\<newline>  ret void\<newline>}''"
  by code_simp

text \<open>
  The scan from any index at which \<^verbatim>\<open>str.find\<close> finds a header text.
\<close>

lemma loop_body_scan_from:
  assumes "str_find loop_header function_text = Some start_idx"
  shows "\<exists>n. n \<le> length (drop (Suc start_idx) function_text)
     \<and> get_loop_body_try loop_header function_text
         = Some (take (Suc n) (drop start_idx function_text))
     \<and> get_loop_body loop_header function_text = take (Suc n) (drop start_idx function_text)
     \<and> (\<forall>k < n. 0 \<le> brace_net (take k (drop (Suc start_idx) function_text)))
     \<and> (n < length (drop (Suc start_idx) function_text)
           \<longrightarrow> brace_net (take n (drop (Suc start_idx) function_text)) = - 1)
     \<and> ((\<forall>k \<le> length (drop (Suc start_idx) function_text).
             0 \<le> brace_net (take k (drop (Suc start_idx) function_text)))
           \<longrightarrow> get_loop_body loop_header function_text = drop start_idx function_text)"
proof -
  let ?t = function_text and ?s = start_idx
  let ?rest = "drop (Suc ?s) ?t"
  from brace_scan_result[of ?t 1 ?s] obtain e where
    r: "brace_scan ?t 1 ?s = Some e" and le: "?s \<le> e" and bound: "e = ?s \<or> e < length ?t"
    and pos: "\<forall>k < e - ?s. 0 < int 1 + brace_net (take k (scanned ?t ?s e))"
    and fin: "Suc e < length ?t \<longrightarrow> int 1 + brace_net (scanned ?t ?s e) = 0"
    by blast
  let ?n = "e - ?s"
  have sl: "?s \<le> length ?t" using assms by (rule str_find_bound)
  have scn: "scanned ?t ?s e = take ?n ?rest"
    by (simp add: scanned_def drop_take)
  have n: "?n \<le> length ?rest" using bound le by auto
  have body: "drop ?s (take (Suc e) ?t) = take (Suc ?n) (drop ?s ?t)"
    using le by (simp add: drop_take Suc_diff_le)
  have tr: "get_loop_body_try loop_header ?t = Some (take (Suc ?n) (drop ?s ?t))"
    using assms r body by (simp add: get_loop_body_try_def)
  then have gb: "get_loop_body loop_header ?t = take (Suc ?n) (drop ?s ?t)"
    by (simp add: get_loop_body_def)
  have p: "\<forall>k < ?n. 0 \<le> brace_net (take k ?rest)"
  proof (intro allI impI)
    fix k assume k: "k < ?n"
    with pos have "0 < 1 + brace_net (take k (take ?n ?rest))" unfolding scn by simp
    moreover have "take k (take ?n ?rest) = take k ?rest" using k by (simp add: min_def)
    ultimately show "0 \<le> brace_net (take k ?rest)" by simp
  qed
  have f: "?n < length ?rest \<longrightarrow> brace_net (take ?n ?rest) = - 1"
  proof
    assume "?n < length ?rest"
    then have "Suc e < length ?t" using le by auto
    with fin show "brace_net (take ?n ?rest) = - 1" unfolding scn by simp
  qed
  have w: "(\<forall>k \<le> length ?rest. 0 \<le> brace_net (take k ?rest))
           \<longrightarrow> get_loop_body loop_header ?t = drop ?s ?t"
  proof
    assume a: "\<forall>k \<le> length ?rest. 0 \<le> brace_net (take k ?rest)"
    have "\<not> ?n < length ?rest"
    proof
      assume lt: "?n < length ?rest"
      with f have "brace_net (take ?n ?rest) = - 1" by blast
      moreover from a lt have "0 \<le> brace_net (take ?n ?rest)" by simp
      ultimately show False by simp
    qed
    with n have "?n = length ?rest" by simp
    then have "length (drop ?s ?t) \<le> Suc ?n" by simp
    then show "get_loop_body loop_header ?t = drop ?s ?t" unfolding gb by simp
  qed
  from n tr gb p f w show ?thesis by blast
qed

text \<open>
  A loop anchor is a match of the anchor pattern in the function text. \<open>anchor_offset\<close> is
  the index at which it starts and \<open>text_from\<close> the function text from there on.
  \<^verbatim>\<open>_get_loop_body\<close> receives the text of the anchor only and looks it up again with
  \<^verbatim>\<open>str.find\<close>, which returns the first place where that text occurs.
\<close>

definition anchor_offset :: "string \<Rightarrow> rmatch \<Rightarrow> nat" where
  "anchor_offset function_text mt = length function_text - length (snd (fst mt))"

definition text_from :: "rmatch \<Rightarrow> string" where
  "text_from mt = snd (fst mt)"

lemma finditer_start_suffix:
  "mt \<in> set (finditer r adv z) \<Longrightarrow> suffix (snd (fst mt)) (snd z)"
proof (induction r adv z rule: finditer.induct)
  case (1 r adv z)
  show ?case
  proof (cases "scan r adv z")
    case None
    with "1.prems" show ?thesis by (subst (asm) finditer.simps) simp
  next
    case (Some ft)
    obtain zs ze g where ft: "ft = (zs, ze, g)" by (cases ft)
    have sc: "scan r adv z = Some (zs, ze, g)" using Some ft by simp
    let ?adv = "length (snd ze) = length (snd zs)"
    from scan_suffix[OF sc] have
      s1: "suffix (snd zs) (snd z)" and s2: "suffix (snd ze) (snd zs)" by blast+
    have fi: "finditer r adv z = (zs, ze, g) # finditer r ?adv ze"
      by (subst finditer.simps) (simp add: sc)
    show ?thesis
    proof (cases "mt = (zs, ze, g)")
      case True
      then show ?thesis using s1 by simp
    next
      case False
      with "1.prems" fi have mem: "mt \<in> set (finditer r ?adv ze)" by simp
      have "suffix (snd (fst mt)) (snd ze)"
      proof (rule "1.IH"[OF Some, of zs "(ze, g)" ze g])
        show "(zs, ze, g) = ft" by (simp add: ft)
        show "(ze, g) = (ze, g)" by simp
        show "mt \<in> set (finditer r ?adv ze)" by (rule mem)
      qed
      then show ?thesis using s1 s2 by (meson suffix_order.trans)
    qed
  qed
qed

lemma anchor_offset_drop:
  assumes "mt \<in> set (re_finditer r function_text)"
  shows "drop (anchor_offset function_text mt) function_text = text_from mt"
proof -
  from finditer_start_suffix[of mt r False "(None, function_text)"] assms
  obtain a where a: "function_text = a @ snd (fst mt)"
    by (auto simp: re_finditer_def suffix_def)
  have "length function_text - length (snd (fst mt)) = length a"
    by (subst a) simp
  then have "drop (anchor_offset function_text mt) function_text = drop (length a) (a @ snd (fst mt))"
    unfolding anchor_offset_def using a by simp
  then show ?thesis by (simp add: text_from_def)
qed

definition balanced_anchor :: rmatch where
  "balanced_anchor =
     ((Some CHR 0x0A, ''loop: x\<newline>  ret void\<newline>}''), (Some CHR 0x0A, ''  ret void\<newline>}''), None)"

lemma balanced_function_anchors:
  "re_finditer loop_header_pattern balanced_function = [balanced_anchor]"
  by code_simp

lemma balanced_anchor_facts:
  "group0 balanced_anchor = ''loop: x\<newline>''"
  "anchor_offset balanced_function balanced_anchor = 19"
  "text_from balanced_anchor = ''loop: x\<newline>  ret void\<newline>}''"
  by code_simp+

text \<open>
  When the same anchor line occurs twice, the second anchor is scanned from the first
  occurrence too: both bodies are the body of the first.
\<close>

definition repeated_anchor_text :: string where
  "repeated_anchor_text = ''loop: x\<newline> a\<newline>}\<newline>loop: x\<newline> call b\<newline> call c\<newline>}\<newline>''"

lemma repeated_anchor_bodies:
  "map (\<lambda>h. get_loop_body h repeated_anchor_text)
     (re_findall0 loop_header_pattern repeated_anchor_text)
   = [''loop: x\<newline> a\<newline>}'', ''loop: x\<newline> a\<newline>}'']"
  by code_simp

text \<open>
  C4, as amended. For every function text and every loop anchor in it whose text
  \<^verbatim>\<open>str.find\<close> finds at the anchor's own offset (the text of the anchor does not occur
  earlier in the function text), the extraction never raises and returns the first
  character of the anchor followed by the first \<open>n\<close> characters of the text after it, where
  the counter (1 plus the brace count read so far) stays positive before the \<open>n\<close>-th
  character. When the scan stops before the end of the text, the counter has reached 0:
  the part read holds exactly one more closing than opening brace. When no prefix of the
  text after the anchor's first character closes more braces than it opens (it is
  balanced, or has braces left open), the whole text from the anchor on is returned.
\<close>

theorem loop_body_scan:
  assumes "mt \<in> set (re_finditer loop_header_pattern function_text)"
    and "str_find (group0 mt) function_text = Some (anchor_offset function_text mt)"
  shows "\<exists>n. n \<le> length (tl (text_from mt))
     \<and> get_loop_body_try (group0 mt) function_text = Some (take (Suc n) (text_from mt))
     \<and> get_loop_body (group0 mt) function_text = take (Suc n) (text_from mt)
     \<and> (\<forall>k < n. 0 \<le> brace_net (take k (tl (text_from mt))))
     \<and> (n < length (tl (text_from mt)) \<longrightarrow> brace_net (take n (tl (text_from mt))) = - 1)
     \<and> ((\<forall>k \<le> length (tl (text_from mt)). 0 \<le> brace_net (take k (tl (text_from mt))))
           \<longrightarrow> get_loop_body (group0 mt) function_text = text_from mt)"
proof -
  let ?s = "anchor_offset function_text mt"
  have d: "drop ?s function_text = text_from mt" using assms(1) by (rule anchor_offset_drop)
  have "drop (Suc ?s) function_text = tl (drop ?s function_text)" by (simp add: drop_Suc tl_drop)
  with d have t: "drop (Suc ?s) function_text = tl (text_from mt)" by simp
  from loop_body_scan_from[OF assms(2)] show ?thesis unfolding d t .
qed

theorem loop_body_scan_witness:
  "balanced_anchor \<in> set (re_finditer loop_header_pattern balanced_function)
   \<and> str_find (group0 balanced_anchor) balanced_function
        = Some (anchor_offset balanced_function balanced_anchor)
   \<and> (\<exists>n. get_loop_body (group0 balanced_anchor) balanced_function
              = take (Suc n) (text_from balanced_anchor))
   \<and> get_loop_body (group0 balanced_anchor) balanced_function = ''loop: x\<newline>  ret void\<newline>}''"
proof -
  have a: "balanced_anchor \<in> set (re_finditer loop_header_pattern balanced_function)"
    by (simp add: balanced_function_anchors)
  have b: "str_find (group0 balanced_anchor) balanced_function
        = Some (anchor_offset balanced_function balanced_anchor)"
    by (simp add: balanced_anchor_facts balanced_function_find)
  from loop_body_scan[OF a b] a b balanced_function_body show ?thesis
    by (auto simp: balanced_anchor_facts)
qed

theorem balanced_text_body_counterexample:
  "brace_net balanced_function = 0
   \<and> re_findall0 loop_header_pattern balanced_function = [''loop: x\<newline>'']
   \<and> brace_net (get_loop_body ''loop: x\<newline>'' balanced_function) \<noteq> 0"
  by code_simp

section \<open>Missing metadata\<close>

text \<open>
  A match of a pattern that starts with a literal text shows that text in the searched
  text; every mapped function text is a piece of the module text, and every basic block a
  piece of its function text. So a module without the text \<^verbatim>\<open>!prof\<close> has no function text
  and no block that the profiling patterns match.
\<close>

lemma eat_prefix: "eat w z = Some z' \<Longrightarrow> snd z = w @ snd z'"
  by (induction w z rule: eat.induct) (auto split: if_splits)

lemma scan_hit:
  "scan r adv z = Some (zs, ze, g) \<Longrightarrow> suffix (snd zs) (snd z) \<and> (ze, g) \<in> set (m r zs)"
proof (induction r adv z rule: scan.induct)
  case (1 r adv p s)
  show ?case
  proof (cases "filter (\<lambda>h. \<not> adv \<or> length (snd (fst h)) < length s) (m r (p, s))")
    case Nil
    with "1.prems" obtain x xs where s: "s = x # xs"
      and sc: "scan r False (Some x, xs) = Some (zs, ze, g)"
      by (auto simp: scan.simps[of r adv p s] split: list.splits)
    from "1.IH"[OF Nil s sc] s show ?thesis by (auto intro: suffix_ConsI)
  next
    case (Cons h hs)
    with "1.prems" have eq: "zs = (p, s)" "ze = fst h" "g = snd h"
      by (auto simp: scan.simps[of r adv p s])
    from Cons have "h \<in> set (filter (\<lambda>h. \<not> adv \<or> length (snd (fst h)) < length s) (m r (p, s)))"
      by simp
    then have "h \<in> set (m r (p, s))" by simp
    with eq show ?thesis by simp
  qed
qed

lemma scan_literal_start:
  assumes "scan (Seq (Str w) r) adv z = Some mt"
  shows "sublist w (snd z)"
proof -
  obtain zs ze g where mt: "mt = (zs, ze, g)" by (cases mt)
  from scan_hit[of "Seq (Str w) r" adv z zs ze g] assms mt have
    su: "suffix (snd zs) (snd z)" and hit: "(ze, g) \<in> set (m (Seq (Str w) r) zs)" by auto
  from hit obtain h1 where "h1 \<in> set (m (Str w) zs)" by auto
  then obtain z1 where "eat w zs = Some z1" by (cases "eat w zs") auto
  then have "prefix w (snd zs)" using eat_prefix by (metis prefixI)
  then have "sublist w (snd zs)" by (rule prefix_imp_sublist)
  moreover have "sublist (snd zs) (snd z)" using su by (rule suffix_imp_sublist)
  ultimately show ?thesis by (rule sublist_order.order.trans)
qed

lemma no_prof_search:
  assumes "\<not> sublist ''!prof'' t"
  shows "re_search prof_entry_pattern t = None" and "re_search prof_block_pattern t = None"
proof -
  have lit: "sublist ''!prof'' ''!prof !''" by (simp add: sublist_code)
  have a: False if "re_search prof_entry_pattern t = Some mt" for mt
  proof -
    from that have "sublist ''!prof !'' (snd (None :: char option, t))"
      unfolding re_search_def prof_entry_pattern_def seqs_def
      by (intro scan_literal_start) simp
    then have "sublist ''!prof'' t" using lit by (auto intro: sublist_order.order.trans)
    with assms show False by simp
  qed
  have b: False if "re_search prof_block_pattern t = Some mt" for mt
  proof -
    from that have "sublist ''!prof !'' (snd (None :: char option, t))"
      unfolding re_search_def prof_block_pattern_def seqs_def
      by (intro scan_literal_start) simp
    then have "sublist ''!prof'' t" using lit by (auto intro: sublist_order.order.trans)
    with assms show False by simp
  qed
  from a show "re_search prof_entry_pattern t = None"
    by (cases "re_search prof_entry_pattern t") auto
  from b show "re_search prof_block_pattern t = None"
    by (cases "re_search prof_block_pattern t") auto
qed

lemma block_freqs_none:
  "\<forall>b \<in> set bs. \<not> sublist ''!prof'' b \<Longrightarrow> block_freqs_of bs = Some []"
  by (induction bs) (simp_all add: no_prof_search)

lemma in_order_sublist: "in_order bs t \<Longrightarrow> b \<in> set bs \<Longrightarrow> sublist b t"
proof (induction bs arbitrary: t)
  case Nil
  then show ?case by simp
next
  case (Cons a bs)
  from Cons.prems(1) obtain pre post where t: "t = pre @ a @ post" and o: "in_order bs post"
    by auto
  show ?case
  proof (cases "b = a")
    case True
    then show ?thesis using t by simp
  next
    case False
    with Cons.prems(2) have "b \<in> set bs" by simp
    from Cons.IH[OF o this] have "sublist b post" .
    moreover have "sublist post t" unfolding t by (metis append.assoc sublist_append_leftI)
    ultimately show ?thesis by (rule sublist_order.order.trans)
  qed
qed

lemma basic_block_sublist:
  assumes "b \<in> set (get_basic_blocks t)"
  shows "sublist b t"
proof -
  from pieces_head[of label_pattern False "(None, t)"] obtain p0 ps where
    p: "pieces (finditer label_pattern False (None, t)) (None, t) = p0 # ps"
       "in_order ps (drop (length p0) (snd (None :: char option, t)))"
    by blast
  have "get_basic_blocks t = map strip (filter (\<lambda>b. strip b \<noteq> []) ps)"
    using p(1) by (simp add: get_basic_blocks_def re_split_def re_finditer_def)
  moreover have "in_order (map strip (filter (\<lambda>b. strip b \<noteq> []) ps)) (drop (length p0) t)"
    using in_order_blocks[OF p(2)] by simp
  ultimately have "sublist b (drop (length p0) t)"
    using assms in_order_sublist by simp
  moreover have "sublist (drop (length p0) t) t" by simp
  ultimately show ?thesis by (rule sublist_order.order.trans)
qed

lemma finditer_sublist: "mt \<in> set (finditer r adv z) \<Longrightarrow> sublist (group0 mt) (snd z)"
proof (induction r adv z rule: finditer.induct)
  case (1 r adv z)
  show ?case
  proof (cases "scan r adv z")
    case None
    with "1.prems" show ?thesis by (subst (asm) finditer.simps) simp
  next
    case (Some ft)
    obtain zs ze g where ft: "ft = (zs, ze, g)" by (cases ft)
    have sc: "scan r adv z = Some (zs, ze, g)" using Some ft by simp
    let ?adv = "length (snd ze) = length (snd zs)"
    from scan_suffix[OF sc] have
      s1: "suffix (snd zs) (snd z)" and s2: "suffix (snd ze) (snd zs)" by blast+
    have z: "snd z = consumed z zs @ snd zs" using s1 by (rule consumed_suffix)
    have zs: "snd zs = consumed zs ze @ snd ze" using s2 by (rule consumed_suffix)
    have fi: "finditer r adv z = (zs, ze, g) # finditer r ?adv ze"
      by (subst finditer.simps) (simp add: sc)
    show ?thesis
    proof (cases "mt = (zs, ze, g)")
      case True
      have "sublist (consumed zs ze) (snd zs)" using zs by (metis sublist_append_rightI)
      moreover have "sublist (snd zs) (snd z)" using s1 by (rule suffix_imp_sublist)
      ultimately show ?thesis unfolding True by (auto intro: sublist_order.order.trans)
    next
      case False
      with "1.prems" fi have "mt \<in> set (finditer r ?adv ze)" by simp
      then have "sublist (group0 mt) (snd ze)"
        by (rule "1.IH"[OF Some, of zs "(ze, g)" ze g, rotated 2]) (simp_all add: ft)
      moreover have "sublist (snd ze) (snd z)"
        using s1 s2 by (meson suffix_imp_sublist sublist_order.order.trans)
      ultimately show ?thesis by (rule sublist_order.order.trans)
    qed
  qed
qed

lemma update_set: "set (AList.update k v al) \<subseteq> insert (k, v) (set al)"
  by (induction al) auto

lemma fold_update_values:
  "(k, v) \<in> set (foldl (\<lambda>d f. AList.update (kf f) (vf f) d) d0 ms)
     \<Longrightarrow> (k, v) \<in> set d0 \<or> v \<in> vf ` set ms"
proof (induction ms arbitrary: d0)
  case Nil
  then show ?case by simp
next
  case (Cons f ms)
  from Cons.prems have "(k, v) \<in> set (foldl (\<lambda>d f. AList.update (kf f) (vf f) d)
      (AList.update (kf f) (vf f) d0) ms)" by simp
  from Cons.IH[OF this] have "(k, v) \<in> set (AList.update (kf f) (vf f) d0) \<or> v \<in> vf ` set ms" .
  then show ?case using update_set[of "kf f" "vf f" d0] by auto
qed

lemma function_text_sublist:
  assumes "(n, t) \<in> set (split_into_functions ir_content)"
  shows "sublist t ir_content"
proof -
  from fold_update_values[of n t "\<lambda>f. get_function_name (group0 f)" group0 "[]"
      "re_finditer function_pattern ir_content"] assms
  obtain mt where "mt \<in> set (re_finditer function_pattern ir_content)" "t = group0 mt"
    by (auto simp: split_into_functions_def)
  then show ?thesis using finditer_sublist[of mt function_pattern False "(None, ir_content)"]
    by (simp add: re_finditer_def)
qed


definition zero_freqs :: "row \<Rightarrow> bool" where
  "zero_freqs r =
     (map_of r ''entry_block_freq'' = Some (PInt 0)
      \<and> map_of r ''max_callsite_block_freq'' = Some (PInt 0))"

definition no_exception :: "(string \<times> string) list \<Rightarrow> string \<times> string \<Rightarrow> bool" where
  "no_exception functions f =
     (case call_graph_try functions (snd f) of Some (Inr features) \<Rightarrow> True | _ \<Rightarrow> False)"

definition zero_loop_features :: row where
  "zero_loop_features =
     [(''avg_nested_loop_level'', PInt 0), (''instr_per_loop'', PInt 0),
      (''block_with_multiple_succ_per_loop'', PInt 0), (''max_loop_depth'', PInt 0),
      (''num_callsite_in_loop'', PInt 0)]"

lemma no_anchor_loop_features:
  assumes "re_search loop_header_pattern t = None"
  shows "get_loop_features t = zero_loop_features"
proof -
  have "finditer loop_header_pattern False (None, t) = []"
    using assms by (subst finditer.simps) (simp add: re_search_def)
  then have "re_findall0 loop_header_pattern t = []"
    by (simp add: re_findall0_def re_finditer_def)
  then show ?thesis by (simp add: get_loop_features_def zero_loop_features_def)
qed

lemma no_prof_call_graph:
  assumes "\<not> sublist ''!prof'' t"
  shows "\<exists>a b c. call_graph_try fs t =
      Some (Inr [(''caller_height'', a), (''call_usage'', b), (''is_recursive'', c),
                 (''entry_block_freq'', PInt 0), (''max_callsite_block_freq'', PInt 0)])"
proof -
  have e: "entry_freq_of t = Some 0"
    using no_prof_search(1)[OF assms] by (simp add: entry_freq_of_def)
  have "\<forall>b \<in> set (get_basic_blocks t). \<not> sublist ''!prof'' b"
  proof
    fix b assume "b \<in> set (get_basic_blocks t)"
    then have "sublist b t" by (rule basic_block_sublist)
    then show "\<not> sublist ''!prof'' b"
      using assms by (meson sublist_order.order.trans)
  qed
  then have b: "block_freqs_of (get_basic_blocks t) = Some []" by (rule block_freqs_none)
  from caller_height_returns[of fs t] obtain h where h: "calculate_caller_height fs t = Some h"
    by blast
  show ?thesis using e b h by (simp add: call_graph_try_def Let_def max_freq_def)
qed

lemma no_prof_feature_row:
  assumes "\<not> sublist ''!prof'' t"
  shows "\<exists>r. feature_row fs n t = Some r \<and> zero_freqs r"
proof -
  from loop_features_shape[of t] obtain a b c d e where
    l: "get_loop_features t =
      [(''avg_nested_loop_level'', a), (''instr_per_loop'', b),
       (''block_with_multiple_succ_per_loop'', c), (''max_loop_depth'', d),
       (''num_callsite_in_loop'', e)]"
    by blast
  from no_prof_call_graph[OF assms, of fs] obtain a' b' c' where
    "call_graph_try fs t =
      Some (Inr [(''caller_height'', a'), (''call_usage'', b'), (''is_recursive'', c'),
                 (''entry_block_freq'', PInt 0), (''max_callsite_block_freq'', PInt 0)])"
    by blast
  then have c: "get_call_graph_features fs t =
      Some [(''caller_height'', a'), (''call_usage'', b'), (''is_recursive'', c'),
            (''entry_block_freq'', PInt 0), (''max_callsite_block_freq'', PInt 0)]"
    by (simp add: get_call_graph_features_def)
  show ?thesis
    by (simp add: feature_row_def Let_def l c dict_update_def zero_freqs_def)
qed

lemma no_prof_feature_rows:
  "\<forall>g \<in> set gs. \<not> sublist ''!prof'' (snd g)
     \<Longrightarrow> \<exists>rows. feature_rows fs gs = Some rows \<and> list_all zero_freqs rows"
proof (induction gs)
  case Nil
  show ?case by simp
next
  case (Cons g gs)
  obtain n t where g: "g = (n, t)" by (cases g)
  with Cons.prems have "\<not> sublist ''!prof'' t" by simp
  from no_prof_feature_row[OF this, of fs n] obtain r where
    r: "feature_row fs n t = Some r" "zero_freqs r" by blast
  from Cons obtain rows where "feature_rows fs gs = Some rows" "list_all zero_freqs rows"
    by auto
  with r g show ?case by simp
qed

lemma no_anchor_text: "re_search loop_header_pattern ''define @f() {\<newline>}'' = None"
  by code_simp

lemma no_prof_module: "\<not> sublist ''!prof'' two_function_module"
  by code_simp

text \<open>
  C5. A function text in which the anchor pattern matches nowhere has 0 for all five loop
  features. In a module whose text holds no profiling annotation (no \<^verbatim>\<open>!prof\<close>), every row
  has 0 for \<^verbatim>\<open>entry_block_freq\<close> and \<^verbatim>\<open>max_callsite_block_freq\<close>, and the call-graph
  features of every function are computed without an exception.
\<close>

theorem missing_metadata_defaults:
  "(re_search loop_header_pattern function_text = None
      \<longrightarrow> get_loop_features function_text = zero_loop_features)
   \<and> (\<not> sublist ''!prof'' ir_content
      \<longrightarrow> (\<exists>rows. extract_all_features ir_content = Some rows \<and> list_all zero_freqs rows)
          \<and> list_all (no_exception (split_into_functions ir_content))
               (split_into_functions ir_content))"
proof (intro conjI impI)
  assume "re_search loop_header_pattern function_text = None"
  then show "get_loop_features function_text = zero_loop_features"
    by (rule no_anchor_loop_features)
next
  assume np: "\<not> sublist ''!prof'' ir_content"
  let ?fs = "split_into_functions ir_content"
  have all: "\<forall>g \<in> set ?fs. \<not> sublist ''!prof'' (snd g)"
  proof
    fix g assume "g \<in> set ?fs"
    then have "sublist (snd g) ir_content"
      using function_text_sublist[of "fst g" "snd g" ir_content] by simp
    then show "\<not> sublist ''!prof'' (snd g)"
      using np by (meson sublist_order.order.trans)
  qed
  from no_prof_feature_rows[OF all, of ?fs]
  show "\<exists>rows. extract_all_features ir_content = Some rows \<and> list_all zero_freqs rows"
    by (simp add: extract_all_features_def Let_def)
  show "list_all (no_exception ?fs) ?fs"
    unfolding list_all_iff
  proof
    fix g assume "g \<in> set ?fs"
    with all have "\<not> sublist ''!prof'' (snd g)" by blast
    from no_prof_call_graph[OF this, of ?fs] show "no_exception ?fs g"
      by (auto simp: no_exception_def)
  qed
qed

theorem missing_metadata_defaults_witness:
  "re_search loop_header_pattern ''define @f() {\<newline>}'' = None
   \<and> get_loop_features ''define @f() {\<newline>}'' = zero_loop_features
   \<and> \<not> sublist ''!prof'' two_function_module
   \<and> (\<exists>row. extract_all_features two_function_module = Some [row] \<and> zero_freqs row)
   \<and> list_all (no_exception (split_into_functions two_function_module))
        (split_into_functions two_function_module)"
  using missing_metadata_defaults[of "''define @f() {\<newline>}''" two_function_module]
    no_anchor_text no_prof_module two_function_module_rows
  by auto

section \<open>An unterminated trailing region\<close>


lemma seq_mem:
  assumes "h \<in> set (m (Seq a b) z)"
  shows "\<exists>h1 \<in> set (m a z). \<exists>h2 \<in> set (m b (fst h1)). fst h = fst h2"
proof -
  from assms obtain h1 h2 where "h1 \<in> set (m a z)" "h2 \<in> set (m b (fst h1))"
    "h = keep_group (snd h1) h2" by auto
  then show ?thesis by (auto simp: keep_group_fst)
qed












section \<open>A module with two function definitions\<close>

text \<open>
  The module of the scenario: \<^verbatim>\<open>A\<close> calls \<^verbatim>\<open>B\<close> twice and has one conditional branch,
  \<^verbatim>\<open>B\<close> calls itself. \<open>intended_mapping\<close> is the mapping with one entry per definition.
  On it the call-graph features are those of the scenario: \<^verbatim>\<open>A\<close> has call usage 2 and is
  not recursive, \<^verbatim>\<open>B\<close> is recursive and has caller height 1.
\<close>

definition merged_row :: row where
  "merged_row =
     [(''function_name'', PStr ''A''),
      (''instruction_per_block'', PFloat (3 / 2)),
      (''successor_per_block'', PFloat (1 / 2)), (''calls_no'', PInt 3),
      (''is_local'', PInt 0), (''ret_count'', PInt 1),
      (''fmul_count'', PInt 0), (''fdiv_count'', PInt 0),
      (''fadd_count'', PInt 0), (''fsub_count'', PInt 0),
      (''avg_nested_loop_level'', PInt 0), (''instr_per_loop'', PInt 0),
      (''block_with_multiple_succ_per_loop'', PInt 0),
      (''max_loop_depth'', PInt 0), (''num_callsite_in_loop'', PInt 0),
      (''caller_height'', PInt 0), (''call_usage'', PInt 3),
      (''is_recursive'', PInt 0), (''entry_block_freq'', PInt 0),
      (''max_callsite_block_freq'', PInt 0)]"

lemma two_function_module_functions:
  "split_into_functions two_function_module = [(''A'', butlast two_function_module)]"
  by code_simp

definition intended_mapping :: "(string \<times> string) list" where
  "intended_mapping =
     [(''A'', ''define @A(i1 %c) {\<newline>e:\<newline> call @B()\<newline> call @B()\<newline> br i1 %c, label %x\<newline>}''),
      (''B'', ''define @B() {\<newline>e:\<newline> call @B()\<newline> ret\<newline>}'')]"

lemma intended_mapping_features:
  "map (\<lambda>f. call_graph_try intended_mapping (snd f)) intended_mapping =
     [Some (Inr [(''caller_height'', PInt 0), (''call_usage'', PInt 2),
                 (''is_recursive'', PInt 0), (''entry_block_freq'', PInt 0),
                 (''max_callsite_block_freq'', PInt 0)]),
      Some (Inr [(''caller_height'', PInt 1), (''call_usage'', PInt 1),
                 (''is_recursive'', PInt 1), (''entry_block_freq'', PInt 0),
                 (''max_callsite_block_freq'', PInt 0)])]"
  by code_simp

text \<open>
  The function pattern never matches twice in a text. Its greedy \<^verbatim>\<open>.*\<close> tries the places of
  the text from the last one backwards, so the first match goes through the last opening
  brace from which the rest of the pattern can still match; a second match further on
  would have offered such a brace beyond the end of the first.
\<close>

lemma steps_self: "z \<in> set (steps c z)"
  by (cases z; cases "snd z") auto

lemma steps_all: "z' \<in> set (steps c z) \<Longrightarrow> z' \<in> set (steps DotAll z)"
  by (induction c z rule: steps.induct) (auto split: if_splits)

lemma steps_trans:
  "c \<in> set (steps DotAll z) \<Longrightarrow> c' \<in> set (steps DotAll c) \<Longrightarrow> c' \<in> set (steps DotAll z)"
proof (induction DotAll z rule: steps.induct)
  case (1 p)
  then show ?case by simp
next
  case (2 p x xs)
  show ?case
  proof (cases "c = (p, x # xs)")
    case True
    with "2.prems"(2) show ?thesis by simp
  next
    case False
    with "2.prems"(1) have "c \<in> set (steps DotAll (Some x, xs))" by simp
    then have "c' \<in> set (steps DotAll (Some x, xs))"
      using "2.prems"(2) by (intro "2.hyps") simp_all
    then show ?thesis by simp
  qed
qed

lemma eat_reach: "eat w z = Some z' \<Longrightarrow> z' \<in> set (steps DotAll z)"
proof (induction w z rule: eat.induct)
  case (1 z)
  then show ?case by (simp add: steps_self)
next
  case (2 c cs p)
  then show ?case by simp
next
  case (3 c cs p x xs)
  then have "z' \<in> set (steps DotAll (Some x, xs))" by (auto split: if_splits)
  then show ?case by simp
qed

lemma m_reach: "h \<in> set (m r z) \<Longrightarrow> fst h \<in> set (steps DotAll z)"
proof (induction r arbitrary: z h)
  case Eps
  then show ?case by (simp add: steps_self)
next
  case (One c)
  obtain p s where z: "z = (p, s)" by (cases z)
  with One obtain x xs where "s = x # xs" "fst h = (Some x, xs)"
    by (auto split: list.splits if_splits)
  with z show ?case by (simp add: steps_self)
next
  case (Str w)
  from Str obtain z' where "eat w z = Some z'" and "fst h = z'"
    by (cases "eat w z") auto
  then show ?case using eat_reach by blast
next
  case (Star c)
  then have "fst h \<in> set (steps c z)" by auto
  then show ?case by (rule steps_all)
next
  case (StarLazy c)
  then have "fst h \<in> set (steps c z)" by auto
  then show ?case by (rule steps_all)
next
  case (Seq a b)
  from Seq.prems obtain h1 h2 where h1: "h1 \<in> set (m a z)" and h2: "h2 \<in> set (m b (fst h1))"
    and h: "h = keep_group (snd h1) h2" by auto
  from Seq.IH(1)[OF h1] Seq.IH(2)[OF h2] have "fst h2 \<in> set (steps DotAll z)"
    by (rule steps_trans)
  then show ?case by (simp add: h keep_group_fst)
next
  case (Alt a b)
  from Alt.prems have "h \<in> set (m a z) \<or> h \<in> set (m b z)" by simp
  then show ?case using Alt.IH by blast
next
  case (Grp a)
  from Grp.prems obtain h1 where "h1 \<in> set (m a z)" and "fst h = fst h1" by auto
  with Grp.IH show ?case by simp
next
  case (Ahead a)
  from Ahead.prems have "fst h = z" by (auto split: if_splits)
  then show ?case by (simp add: steps_self)
next
  case EndZ
  then show ?case by (auto simp: steps_self split: if_splits)
next
  case WordB
  then show ?case by (auto simp: steps_self split: if_splits)
qed

lemma scan_first:
  "scan r adv z = Some (zs, ze, g) \<Longrightarrow>
     zs \<in> set (steps DotAll z)
     \<and> (\<exists>adv' hs. filter (\<lambda>h. \<not> adv' \<or> length (snd (fst h)) < length (snd zs)) (m r zs)
                      = (ze, g) # hs)"
proof (induction r adv z rule: scan.induct)
  case (1 r adv p s)
  show ?case
  proof (cases "filter (\<lambda>h. \<not> adv \<or> length (snd (fst h)) < length s) (m r (p, s))")
    case Nil
    with "1.prems" obtain x xs where s: "s = x # xs"
      and sc: "scan r False (Some x, xs) = Some (zs, ze, g)"
      by (auto simp: scan.simps[of r adv p s] split: list.splits)
    from "1.IH"[OF Nil s sc] s show ?thesis by auto
  next
    case (Cons h hs)
    with "1.prems" have eq: "zs = (p, s)" "ze = fst h" "g = snd h"
      by (auto simp: scan.simps[of r adv p s])
    have "filter (\<lambda>h. \<not> adv \<or> length (snd (fst h)) < length (snd zs)) (m r zs) = (ze, g) # hs"
      using Cons eq by simp
    then show ?thesis using eq(1) steps_self by blast
  qed
qed

lemma steps_sorted: "sorted_wrt (\<lambda>a b. length (snd b) < length (snd a)) (steps c z)"
proof (induction c z rule: steps.induct)
  case (1 c p)
  show ?case by simp
next
  case (2 c p x xs)
  have "\<forall>b \<in> set (steps c (Some x, xs)). length (snd b) < length (x # xs)"
  proof
    fix b assume "b \<in> set (steps c (Some x, xs))"
    then have "suffix (snd b) xs" using steps_suffix by fastforce
    then have "length (snd b) \<le> length xs" by (rule suffix_length_le)
    then show "length (snd b) < length (x # xs)" by simp
  qed
  with 2 show ?case by auto
qed

lemma concat_first:
  "concat (map G cs) = h # hs \<Longrightarrow>
     \<exists>pre c post. cs = pre @ c # post \<and> (\<forall>x \<in> set pre. G x = []) \<and> h \<in> set (G c)"
proof (induction cs)
  case Nil
  then show ?case by simp
next
  case (Cons a cs)
  show ?case
  proof (cases "G a = []")
    case True
    with Cons.prems have "concat (map G cs) = h # hs" by simp
    from Cons.IH[OF this] obtain pre c post where
      "cs = pre @ c # post" "\<forall>x \<in> set pre. G x = []" "h \<in> set (G c)" by blast
    with True have "a # cs = (a # pre) @ c # post \<and> (\<forall>x \<in> set (a # pre). G x = []) \<and> h \<in> set (G c)"
      by simp
    then show ?thesis by blast
  next
    case False
    then obtain g gs where g: "G a = g # gs" by (cases "G a") auto
    with Cons.prems have "h = g" by simp
    with g have "a # cs = [] @ a # cs \<and> (\<forall>x \<in> set []. G x = []) \<and> h \<in> set (G a)" by simp
    then show ?thesis by blast
  qed
qed

lemma greedy_first:
  assumes hit: "m (Seq (Str w) (Seq (Star DotAll) r)) z = h # hs"
    and z1: "eat w z = Some z1"
    and c': "c' \<in> set (steps DotAll z1)" "m r c' \<noteq> []"
  shows "\<exists>c \<in> set (steps DotAll z1). length (snd c) \<le> length (snd c')
           \<and> (\<exists>h0 \<in> set (m r c). fst h0 = fst h)"
proof -
  let ?G = "\<lambda>c. map (keep_group None) (map (keep_group None) (m r c))"
  have "m (Seq (Str w) (Seq (Star DotAll) r)) z
        = concat (map ?G (rev (steps DotAll z1)))"
    using z1 by (simp add: map_concat comp_def)
  with hit have "concat (map ?G (rev (steps DotAll z1))) = h # hs" by simp
  from concat_first[OF this] obtain pre c post where
    cs: "rev (steps DotAll z1) = pre @ c # post" and pre: "\<forall>x \<in> set pre. ?G x = []"
    and h: "h \<in> set (?G c)" by blast
  from cs have st: "steps DotAll z1 = rev post @ c # rev pre"
    by (metis rev_append rev.simps(2) rev_rev_ident append.assoc append_Cons append_Nil)
  have cmem: "c \<in> set (steps DotAll z1)" using st by simp
  have "c' \<notin> set pre" using pre c'(2) by auto
  moreover have "c' \<in> set (rev (steps DotAll z1))" using c'(1) by simp
  ultimately have "c' = c \<or> c' \<in> set post" using cs by auto
  then have "length (snd c) \<le> length (snd c')"
  proof
    assume "c' = c" then show ?thesis by simp
  next
    assume "c' \<in> set post"
    then have "c' \<in> set (rev post)" by simp
    moreover have "sorted_wrt (\<lambda>a b. length (snd b) < length (snd a)) (rev post @ c # rev pre)"
      using steps_sorted[of DotAll z1] st by simp
    ultimately have "length (snd c) < length (snd c')"
      by (auto simp: sorted_wrt_append)
    then show ?thesis by simp
  qed
  moreover from h obtain h0 where "h0 \<in> set (m r c)" "fst h0 = fst h"
    by (auto simp: keep_group_fst)
  ultimately show ?thesis using cmem by blast
qed


lemma literal_seq_hit:
  assumes "h \<in> set (m (Seq (Str w) r) z)"
  shows "\<exists>z1. eat w z = Some z1 \<and> (\<exists>h0 \<in> set (m r z1). fst h0 = fst h)"
proof -
  from seq_mem[OF assms] obtain h1 h2 where h1: "h1 \<in> set (m (Str w) z)"
    and h2: "h2 \<in> set (m r (fst h1))" and e: "fst h = fst h2" by blast
  from h1 have "eat w z = Some (fst h1)" by (cases "eat w z") auto
  with h2 e show ?thesis by auto
qed

lemma literal_consumes:
  assumes "h \<in> set (m (Seq (Str (x # xs)) r) z)"
  shows "length (snd (fst h)) < length (snd z)"
proof -
  from literal_seq_hit[OF assms] obtain z1 h0 where e: "eat (x # xs) z = Some z1"
    and h0: "h0 \<in> set (m r z1)" "fst h0 = fst h" by blast
  from eat_prefix[OF e] have "length (snd z1) < length (snd z)" by simp
  moreover from m_suffix[OF h0(1)] have "length (snd (fst h0)) \<le> length (snd z1)"
    by (rule suffix_length_le)
  ultimately show ?thesis using h0(2) by simp
qed

lemma steps_length: "c \<in> set (steps cl z) \<Longrightarrow> length (snd c) \<le> length (snd z)"
  using steps_suffix suffix_length_le by blast

lemma no_second_match:
  assumes first: "scan function_pattern adv z = Some (zs, ze, g)"
    and second: "scan function_pattern adv' ze = Some (zs', ze', g')"
  shows False
proof -
  let ?L = "Ahead (foldr Seq [Str ''\<newline>'', Star (A S), Alt (Str ''define'') EndZ] Eps)"
  let ?R = "Seq (Str ''{'') (Seq (StarLazy DotAll) (Seq (Str ''}'') (Seq ?L Eps)))"
  have fp: "function_pattern = Seq (Str ''define'') (Seq (Star DotAll) ?R)"
    by (simp add: function_pattern_def seqs_def)
  from scan_first[OF first] obtain a hs where
    f: "filter (\<lambda>h. \<not> a \<or> length (snd (fst h)) < length (snd zs)) (m function_pattern zs)
          = (ze, g) # hs" by blast
  have "\<forall>h \<in> set (m function_pattern zs). \<not> a \<or> length (snd (fst h)) < length (snd zs)"
    unfolding fp using literal_consumes by blast
  then have fil: "filter (\<lambda>h. \<not> a \<or> length (snd (fst h)) < length (snd zs)) (m function_pattern zs)
          = m function_pattern zs" by (simp only: filter_True)
  have hd0: "m function_pattern zs = (ze, g) # hs" using f unfolding fil .
  have hd: "m (Seq (Str ''define'') (Seq (Star DotAll) ?R)) zs = (ze, g) # hs"
    using hd0 unfolding fp .
  have "(ze, g) \<in> set (m (Seq (Str ''define'') (Seq (Star DotAll) ?R)) zs)"
    unfolding hd by (simp only: list.set_intros)
  from literal_seq_hit[OF this] obtain z1 h0 where z1: "eat ''define'' zs = Some z1"
    and h0: "h0 \<in> set (m (Seq (Star DotAll) ?R) z1)" "fst h0 = ze"
    by (metis fst_conv)
  from m_reach[OF h0(1)] h0(2) have ze: "ze \<in> set (steps DotAll z1)" by (simp only:)
  from scan_first[OF second] have zs': "zs' \<in> set (steps DotAll ze)" by blast
  from scan_hit[OF second] have "(ze', g') \<in> set (m function_pattern zs')" by blast
  then have "(ze', g') \<in> set (m (Seq (Str ''define'') (Seq (Star DotAll) ?R)) zs')"
    unfolding fp .
  from literal_seq_hit[OF this] obtain z1' k0 where z1': "eat ''define'' zs' = Some z1'"
    and k0: "k0 \<in> set (m (Seq (Star DotAll) ?R) z1')" by blast
  from seq_mem[OF k0] obtain k1 k2 where k1: "k1 \<in> set (m (Star DotAll) z1')"
    and k2: "k2 \<in> set (m ?R (fst k1))" by blast
  let ?c' = "fst k1"
  have c1: "?c' \<in> set (steps DotAll z1')" using k1 by auto
  have ne: "m ?R ?c' \<noteq> []"
  proof
    assume "m ?R ?c' = []"
    with k2 have "k2 \<in> set []" by (simp only:)
    then show False by simp
  qed
  have "?c' \<in> set (steps DotAll z1)"
    using ze zs' eat_reach[OF z1'] c1 by (meson steps_trans)
  from greedy_first[OF hd z1 this ne] obtain c h1 where
    c: "length (snd c) \<le> length (snd ?c')" and h1: "h1 \<in> set (m ?R c)" "fst h1 = ze"
    by (metis fst_conv)
  from literal_consumes[OF h1(1)] h1(2) have "length (snd ze) < length (snd c)" by simp
  moreover have "length (snd ?c') \<le> length (snd ze)"
    using steps_length[OF c1] steps_length[OF eat_reach[OF z1']] steps_length[OF zs']
    by simp
  ultimately show False using c by simp
qed

lemma function_matches_at_most_one: "length (finditer function_pattern adv z) \<le> 1"
proof (cases "scan function_pattern adv z")
  case None
  then show ?thesis by (subst finditer.simps) simp
next
  case (Some ft)
  obtain zs ze g where ft: "ft = (zs, ze, g)" by (cases ft)
  let ?adv = "length (snd ze) = length (snd zs)"
  have sc: "scan function_pattern adv z = Some (zs, ze, g)" using Some ft by simp
  have "scan function_pattern ?adv ze = None"
  proof (cases "scan function_pattern ?adv ze")
    case None
    then show ?thesis .
  next
    case (Some ft')
    obtain a b c where "ft' = (a, b, c)" by (cases ft')
    with Some no_second_match[OF sc] show ?thesis by blast
  qed
  then have "finditer function_pattern ?adv ze = []" by (subst finditer.simps) simp
  then show ?thesis by (subst finditer.simps) (simp add: sc)
qed

lemma fold_update_length:
  "length (foldl (\<lambda>d f. AList.update (kf f) (vf f) d) [] ms) \<le> length ms"
proof -
  have "length (foldl (\<lambda>d f. AList.update (kf f) (vf f) d) d0 ms) \<le> length d0 + length ms"
    for d0
  proof (induction ms arbitrary: d0)
    case Nil
    show ?case by simp
  next
    case (Cons f ms)
    have "length (AList.update (kf f) (vf f) d0) \<le> Suc (length d0)"
      by (induction d0) auto
    with Cons[of "AList.update (kf f) (vf f) d0"] show ?case by simp
  qed
  from this[of "[]"] show ?thesis by simp
qed

lemma at_most_one_function: "length (split_into_functions ir_content) \<le> 1"
proof -
  have "length (split_into_functions ir_content)
        \<le> length (re_finditer function_pattern ir_content)"
    unfolding split_into_functions_def by (rule fold_update_length)
  also have "\<dots> \<le> 1" unfolding re_finditer_def by (rule function_matches_at_most_one)
  finally show ?thesis .
qed

text \<open>
  C1. The splitter never returns more than one region. On the module text of the scenario
  it returns one region, from the marker of \<^verbatim>\<open>A\<close> to the closing brace of \<^verbatim>\<open>B\<close>, under the
  key \<^verbatim>\<open>A\<close>; the aggregator returns one row, with call usage 3, and no row for \<^verbatim>\<open>B\<close>.
\<close>

theorem two_function_module_merged:
  "length (split_into_functions ir_content) \<le> 1
   \<and> split_into_functions two_function_module = [(''A'', butlast two_function_module)]
   \<and> extract_all_features two_function_module = Some [merged_row]
   \<and> map_of merged_row ''call_usage'' = Some (PInt 3)"
  using at_most_one_function[of ir_content] two_function_module_functions
    two_function_module_rows
  by (simp add: merged_row_def)

end
